theory Spec2Isabelle
  imports Main "HOL-Library.Word" "HOL-Library.AList" "HOL-Library.Sublist"
begin

chapter \<open>The daily-lesson bot: chunking, start-up, delivery and progress\<close>

text \<open>
  The development follows the bot's single source file. Pure helpers are HOL functions;
  the asynchronous functions that talk to the messaging channel and the file system are
  state-passing functions over an explicit \<open>world\<close>, and every \<open>throw\<close> and
  rejected promise is a value (\<open>Threw\<close>) of the result.
\<close>

section \<open>Strings of the runtime\<close>

text \<open>
  A JavaScript string is a sequence of UTF-16 code units; \<open>length\<close>, \<open>slice\<close>,
  \<open>lastIndexOf\<close> and \<open>trim\<close> all count and inspect code units. Lesson bodies are
  Persian text, so the 8-bit \<open>char\<close> of HOL would not hold them.
\<close>

type_synonym unit16 = "16 word"

type_synonym jsstring = "unit16 list"

definition NEWLINE :: unit16 where
  "NEWLINE = 10"

definition SPACE :: unit16 where
  "SPACE = 32"

text \<open>
  The code units that \<open>String.prototype.trim\<close> strips: ECMAScript WhiteSpace
  (TAB, VT, FF, SP, NBSP, ZWNBSP and the Unicode space separators) and LineTerminator
  (LF, CR, LS, PS).
\<close>

definition isWhiteSpace :: "unit16 \<Rightarrow> bool" where
  "isWhiteSpace u =
     (u = 0x0009 \<or> u = 0x000A \<or> u = 0x000B \<or> u = 0x000C \<or> u = 0x000D \<or> u = 0x0020 \<or>
      u = 0x00A0 \<or> u = 0x1680 \<or> (0x2000 \<le> u \<and> u \<le> 0x200A) \<or> u = 0x2028 \<or>
      u = 0x2029 \<or> u = 0x202F \<or> u = 0x205F \<or> u = 0x3000 \<or> u = 0xFEFF)"

definition trim :: "jsstring \<Rightarrow> jsstring" where
  "trim s = rev (dropWhile isWhiteSpace (rev (dropWhile isWhiteSpace s)))"

text \<open>
  \<open>s.slice(a, b)\<close> for \<open>0 \<le> a\<close> and \<open>0 \<le> b\<close>: the units at positions
  \<open>a\<close> to \<open>b - 1\<close> that exist.
\<close>

definition sliceStr :: "'a list \<Rightarrow> nat \<Rightarrow> nat \<Rightarrow> 'a list" where
  "sliceStr xs a b = take (b - a) (drop a xs)"

text \<open>
  \<open>s.lastIndexOf(c, from)\<close> for a one-unit search string: the greatest position
  \<open>i \<le> from\<close> inside the string that holds \<open>c\<close>, and \<open>-1\<close> when there is none.
\<close>

fun lastIndexOf :: "'a list \<Rightarrow> 'a \<Rightarrow> nat \<Rightarrow> int" where
  "lastIndexOf xs c 0 = (if 0 < length xs \<and> xs ! 0 = c then 0 else - 1)"
| "lastIndexOf xs c (Suc n) =
     (if Suc n < length xs \<and> xs ! Suc n = c then int (Suc n) else lastIndexOf xs c n)"

definition allWhiteSpace :: "jsstring \<Rightarrow> bool" where
  "allWhiteSpace s = list_all isWhiteSpace s"

section \<open>The message chunker\<close>

definition MAX_MESSAGE_LENGTH :: nat where
  "MAX_MESSAGE_LENGTH = 4096"

text \<open>
  The split position that one pass of the loop of \<open>formatChunks\<close> chooses when more
  than \<open>MAX_MESSAGE_LENGTH\<close> units are left after \<open>start\<close>: the last newline at or
  before \<open>start + MAX_MESSAGE_LENGTH\<close>; when that is not past \<open>start\<close>, the last
  space; when that is not past \<open>start\<close> either, \<open>start + MAX_MESSAGE_LENGTH\<close> itself.
\<close>

definition splitIndexOf :: "jsstring \<Rightarrow> nat \<Rightarrow> nat" where
  "splitIndexOf text start =
     (let tentativeEnd = start + MAX_MESSAGE_LENGTH;
          s1 = lastIndexOf text NEWLINE tentativeEnd;
          s2 = (if s1 \<le> int start then lastIndexOf text SPACE tentativeEnd else s1);
          s3 = (if s2 \<le> int start then int tentativeEnd else s2)
      in nat s3)"

lemma lastIndexOf_le: "lastIndexOf xs c n \<le> int n"
  by (induction n) auto

lemma splitIndexOf_gt: "start < splitIndexOf text start"
  unfolding splitIndexOf_def Let_def MAX_MESSAGE_LENGTH_def
  by (auto simp: not_le)

lemma splitIndexOf_le: "splitIndexOf text start \<le> start + MAX_MESSAGE_LENGTH"
  unfolding splitIndexOf_def Let_def
  using lastIndexOf_le [of _ NEWLINE "start + MAX_MESSAGE_LENGTH"]
        lastIndexOf_le [of _ SPACE "start + MAX_MESSAGE_LENGTH"]
  by (auto simp: nat_le_iff)

text \<open>
  The \<open>while\<close> loop of \<open>formatChunks\<close>, with its two variables \<open>start\<close> and
  \<open>chunks\<close>. The \<open>break\<close> of the source is the branch without a recursive call.
  The loop ends because the split position is always past \<open>start\<close>.
\<close>

function formatChunks_loop :: "jsstring \<Rightarrow> nat \<Rightarrow> jsstring list \<Rightarrow> jsstring list" where
  "formatChunks_loop text start chunks =
     (if start < length text then
        (let remaining = length text - start in
         if remaining \<le> MAX_MESSAGE_LENGTH then chunks @ [trim (drop start text)]
         else
           (let splitIndex = splitIndexOf text start;
                segment = trim (sliceStr text start splitIndex)
            in formatChunks_loop text splitIndex
                 (if segment \<noteq> [] then chunks @ [segment] else chunks)))
      else chunks)"
  by pat_completeness auto

termination
proof (relation "measure (\<lambda>(text, start, chunks). length text - start)")
  show "wf (measure (\<lambda>(text, start, chunks). length text - start))"
    by simp
next
  fix body :: jsstring and start :: nat and chunks :: "jsstring list"
    and remaining splitIndex :: nat and segment :: jsstring
  assume "start < length body" and "splitIndex = splitIndexOf body start"
  then show "((body, splitIndex, if segment \<noteq> [] then chunks @ [segment] else chunks),
              (body, start, chunks))
             \<in> measure (\<lambda>(text, start, chunks). length text - start)"
    using splitIndexOf_gt [of start body] by simp
qed

declare formatChunks_loop.simps [simp del]

definition formatChunks :: "jsstring \<Rightarrow> jsstring list" where
  "formatChunks text = filter (\<lambda>c. c \<noteq> []) (formatChunks_loop text 0 [])"

text \<open>
  What "up to whitespace at the cut points" means: the text is a whitespace-only gap,
  then each segment followed by a whitespace-only gap.
\<close>

definition gapsOk :: "jsstring \<Rightarrow> jsstring list \<Rightarrow> jsstring \<Rightarrow> jsstring list \<Rightarrow> bool" where
  "gapsOk body cs g0 gs \<longleftrightarrow>
     length gs = length cs \<and> allWhiteSpace g0 \<and> list_all allWhiteSpace gs \<and>
     body = g0 @ concat (map2 (@) cs gs)"

subsection \<open>Properties of the chunker\<close>

lemma trim_decomp:
  "\<exists>a b. s = a @ trim s @ b \<and> allWhiteSpace a \<and> allWhiteSpace b"
proof -
  let ?a = "takeWhile isWhiteSpace s"
  let ?r = "dropWhile isWhiteSpace s"
  let ?b = "rev (takeWhile isWhiteSpace (rev ?r))"
  have 1: "s = ?a @ ?r" by simp
  have "rev ?r = takeWhile isWhiteSpace (rev ?r) @ dropWhile isWhiteSpace (rev ?r)" by simp
  then have 2: "?r = trim s @ ?b" unfolding trim_def by (metis rev_append rev_rev_ident)
  have 3: "allWhiteSpace ?a" unfolding allWhiteSpace_def list_all_iff by (auto dest: set_takeWhileD)
  have 4: "allWhiteSpace ?b" unfolding allWhiteSpace_def list_all_iff by (auto dest: set_takeWhileD)
  from 1 2 have "s = ?a @ trim s @ ?b" by simp
  with 3 4 show ?thesis by blast
qed

lemma trim_empty_iff: "trim s = [] \<longleftrightarrow> allWhiteSpace s"
proof
  assume "trim s = []"
  then have "dropWhile isWhiteSpace (rev (dropWhile isWhiteSpace s)) = []"
    by (simp add: trim_def)
  then have "\<forall>x\<in>set (dropWhile isWhiteSpace s). isWhiteSpace x"
    by (simp add: dropWhile_eq_Nil_conv)
  then have "dropWhile isWhiteSpace s = []"
    by (metis hd_dropWhile hd_in_set)
  then show "allWhiteSpace s"
    unfolding allWhiteSpace_def list_all_iff dropWhile_eq_Nil_conv .
next
  assume "allWhiteSpace s"
  then have "dropWhile isWhiteSpace s = []"
    unfolding allWhiteSpace_def list_all_iff dropWhile_eq_Nil_conv .
  then show "trim s = []" by (metis trim_def rev.simps(1) dropWhile.simps(1))
qed

lemma length_trim_le: "length (trim s) \<le> length s"
proof -
  obtain a b where "s = a @ trim s @ b" using trim_decomp by blast
  then have "length s = length a + length (trim s) + length b"
    by (metis length_append add.assoc)
  then show ?thesis by simp
qed

lemma loop_step:
  assumes "start < length t" "\<not> length t - start \<le> MAX_MESSAGE_LENGTH"
  shows "formatChunks_loop t start chunks =
         formatChunks_loop t (splitIndexOf t start)
           (chunks @ (if trim (sliceStr t start (splitIndexOf t start)) \<noteq> []
                      then [trim (sliceStr t start (splitIndexOf t start))] else []))"
  using assms by (subst formatChunks_loop.simps) (simp add: Let_def)

lemma loop_last:
  assumes "start < length t" "length t - start \<le> MAX_MESSAGE_LENGTH"
  shows "formatChunks_loop t start chunks = chunks @ [trim (drop start t)]"
  using assms by (subst formatChunks_loop.simps) (simp add: Let_def)

lemma loop_done:
  assumes "\<not> start < length t"
  shows "formatChunks_loop t start chunks = chunks"
  using assms by (subst formatChunks_loop.simps) simp

lemma loop_acc: "formatChunks_loop t start chunks = chunks @ formatChunks_loop t start []"
proof (induction "length t - start" arbitrary: start chunks rule: less_induct)
  case less
  consider (finished) "\<not> start < length t"
    | (final) "start < length t" "length t - start \<le> MAX_MESSAGE_LENGTH"
    | (more) "start < length t" "\<not> length t - start \<le> MAX_MESSAGE_LENGTH"
    by blast
  then show ?case
  proof cases
    case finished
    then show ?thesis by (simp add: loop_done)
  next
    case final
    then show ?thesis by (simp add: loop_last)
  next
    case more
    let ?sp = "splitIndexOf t start"
    let ?new = "if trim (sliceStr t start ?sp) \<noteq> [] then [trim (sliceStr t start ?sp)] else []"
    have smaller: "length t - ?sp < length t - start"
      using more(1) splitIndexOf_gt [of start t] by simp
    have "formatChunks_loop t start chunks = formatChunks_loop t ?sp (chunks @ ?new)"
      using more by (rule loop_step)
    also have "\<dots> = (chunks @ ?new) @ formatChunks_loop t ?sp []"
      using less [OF smaller] .
    also have "\<dots> = chunks @ formatChunks_loop t ?sp ([] @ ?new)"
      using less [OF smaller, of "[] @ ?new"] by simp
    also have "\<dots> = chunks @ formatChunks_loop t start []"
      using loop_step [OF more, of "[]"] by simp
    finally show ?thesis .
  qed
qed

lemma slice_drop: "start \<le> sp \<Longrightarrow> drop start t = sliceStr t start sp @ drop sp t"
proof -
  assume "start \<le> sp"
  then have "drop sp t = drop (sp - start) (drop start t)" by simp
  then show ?thesis unfolding sliceStr_def by (metis append_take_drop_id)
qed

lemma length_slice_le: "length (sliceStr t start sp) \<le> sp - start"
  by (simp add: sliceStr_def)

lemma loop_length_bound:
  "\<forall>c \<in> set (formatChunks_loop t start []). length c \<le> MAX_MESSAGE_LENGTH"
proof (induction "length t - start" arbitrary: start rule: less_induct)
  case less
  consider (finished) "\<not> start < length t"
    | (final) "start < length t" "length t - start \<le> MAX_MESSAGE_LENGTH"
    | (more) "start < length t" "\<not> length t - start \<le> MAX_MESSAGE_LENGTH"
    by blast
  then show ?case
  proof cases
    case finished
    then show ?thesis by (simp add: loop_done)
  next
    case final
    have "length (trim (drop start t)) \<le> length (drop start t)" by (rule length_trim_le)
    with final show ?thesis by (simp add: loop_last)
  next
    case more
    let ?sp = "splitIndexOf t start"
    let ?seg = "trim (sliceStr t start ?sp)"
    have smaller: "length t - ?sp < length t - start"
      using more(1) splitIndexOf_gt [of start t] by simp
    have "length ?seg \<le> length (sliceStr t start ?sp)" by (rule length_trim_le)
    also have "\<dots> \<le> ?sp - start" by (rule length_slice_le)
    also have "\<dots> \<le> MAX_MESSAGE_LENGTH" using splitIndexOf_le [of t start] by simp
    finally have seg: "length ?seg \<le> MAX_MESSAGE_LENGTH" .
    have eq: "formatChunks_loop t start [] =
          (if ?seg \<noteq> [] then [?seg] else []) @ formatChunks_loop t ?sp []"
      using loop_step [OF more, of "[]"] loop_acc [of t ?sp "(if ?seg \<noteq> [] then [?seg] else [])"]
      by simp
    show ?thesis unfolding eq using seg less [OF smaller] by auto
  qed
qed

lemma allWhiteSpace_append [simp]: "allWhiteSpace (a @ b) \<longleftrightarrow> allWhiteSpace a \<and> allWhiteSpace b"
  by (simp add: allWhiteSpace_def)

lemma allWhiteSpace_Nil [simp]: "allWhiteSpace []"
  by (simp add: allWhiteSpace_def)

lemma gaps_prepend_ws:
  assumes "allWhiteSpace w" "gapsOk body cs g0 gs"
  shows "gapsOk (w @ body) cs (w @ g0) gs"
  using assms by (simp add: gapsOk_def)

lemma gaps_prepend_seg:
  assumes "s = a @ c @ b" "allWhiteSpace a" "allWhiteSpace b" "gapsOk body cs g0 gs"
  shows "gapsOk (s @ body) (c # cs) a ((b @ g0) # gs)"
  using assms by (simp add: gapsOk_def)

lemma loop_reconstructs:
  "\<exists>g0 gs. gapsOk (drop start t) (filter (\<lambda>c. c \<noteq> []) (formatChunks_loop t start [])) g0 gs"
proof (induction "length t - start" arbitrary: start rule: less_induct)
  case less
  consider (finished) "\<not> start < length t"
    | (final) "start < length t" "length t - start \<le> MAX_MESSAGE_LENGTH"
    | (more) "start < length t" "\<not> length t - start \<le> MAX_MESSAGE_LENGTH"
    by blast
  then show ?case
  proof cases
    case finished
    then have "gapsOk (drop start t) (filter (\<lambda>c. c \<noteq> []) (formatChunks_loop t start [])) [] []"
      by (simp add: loop_done gapsOk_def)
    then show ?thesis by blast
  next
    case final
    let ?r = "drop start t"
    obtain a b where ab: "?r = a @ trim ?r @ b" "allWhiteSpace a" "allWhiteSpace b"
      using trim_decomp by blast
    have nil: "gapsOk [] [] [] []" by (simp add: gapsOk_def)
    show ?thesis
    proof (cases "trim ?r = []")
      case True
      then have "allWhiteSpace ?r" by (simp add: trim_empty_iff)
      then have "gapsOk (?r @ []) [] (?r @ []) []" using nil by (rule gaps_prepend_ws)
      with True final show ?thesis by (auto simp: loop_last)
    next
      case False
      have "gapsOk (?r @ []) (trim ?r # []) a ((b @ []) # [])"
        using ab nil by (rule gaps_prepend_seg)
      with False final show ?thesis by (auto simp: loop_last)
    qed
  next
    case more
    let ?sp = "splitIndexOf t start"
    let ?raw = "sliceStr t start ?sp"
    let ?seg = "trim ?raw"
    let ?rest = "filter (\<lambda>c. c \<noteq> []) (formatChunks_loop t ?sp [])"
    have smaller: "length t - ?sp < length t - start"
      using more(1) splitIndexOf_gt [of start t] by simp
    have eq: "formatChunks_loop t start [] =
          (if ?seg \<noteq> [] then [?seg] else []) @ formatChunks_loop t ?sp []"
      using loop_step [OF more, of "[]"] loop_acc [of t ?sp "(if ?seg \<noteq> [] then [?seg] else [])"]
      by simp
    have split: "drop start t = ?raw @ drop ?sp t"
      using splitIndexOf_gt [of start t] by (intro slice_drop) simp
    obtain g0 gs where ih: "gapsOk (drop ?sp t) ?rest g0 gs"
      using less [OF smaller] by blast
    obtain a b where ab: "?raw = a @ ?seg @ b" "allWhiteSpace a" "allWhiteSpace b"
      using trim_decomp by blast
    show ?thesis
    proof (cases "?seg = []")
      case True
      then have "allWhiteSpace ?raw" by (simp add: trim_empty_iff)
      then have "gapsOk (?raw @ drop ?sp t) ?rest (?raw @ g0) gs" using ih by (rule gaps_prepend_ws)
      then show ?thesis unfolding eq split [symmetric] using True by auto
    next
      case False
      have "gapsOk (?raw @ drop ?sp t) (?seg # ?rest) a ((b @ g0) # gs)"
        using ab ih by (rule gaps_prepend_seg)
      then show ?thesis unfolding eq split [symmetric] using False by auto
    qed
  qed
qed

lemma loop_whitespace_remainder:
  "allWhiteSpace (drop start t) \<Longrightarrow>
   filter (\<lambda>c. c \<noteq> []) (formatChunks_loop t start chunks) = filter (\<lambda>c. c \<noteq> []) chunks"
proof (induction "length t - start" arbitrary: start chunks rule: less_induct)
  case less
  consider (finished) "\<not> start < length t"
    | (final) "start < length t" "length t - start \<le> MAX_MESSAGE_LENGTH"
    | (more) "start < length t" "\<not> length t - start \<le> MAX_MESSAGE_LENGTH"
    by blast
  then show ?case
  proof cases
    case finished
    then show ?thesis by (simp add: loop_done)
  next
    case final
    have "trim (drop start t) = []" using less.prems by (simp add: trim_empty_iff)
    with final show ?thesis by (simp add: loop_last)
  next
    case more
    let ?sp = "splitIndexOf t start"
    let ?raw = "sliceStr t start ?sp"
    have smaller: "length t - ?sp < length t - start"
      using more(1) splitIndexOf_gt [of start t] by simp
    have split: "drop start t = ?raw @ drop ?sp t"
      using splitIndexOf_gt [of start t] by (intro slice_drop) simp
    have ws: "allWhiteSpace ?raw" "allWhiteSpace (drop ?sp t)"
      using less.prems unfolding split by simp_all
    then have "trim ?raw = []" by (simp add: trim_empty_iff)
    then have "formatChunks_loop t start chunks = formatChunks_loop t ?sp chunks"
      using loop_step [OF more, of chunks] by simp
    then show ?thesis using less.hyps [OF smaller ws(2)] by simp
  qed
qed

text \<open>
  Claim C5. For every input text, \<open>formatChunks\<close> returns segments that are all
  non-empty and at most \<open>MAX_MESSAGE_LENGTH = 4096\<close> code units long; the text is the
  in-order concatenation of the segments with whitespace-only gaps before, between and
  after them (the whitespace that \<open>trim\<close> removed at the cut points); and when
  everything from \<open>start\<close> on is whitespace, the loop adds no segment for it.
\<close>

theorem formatChunks_contract:
  "(\<forall>c \<in> set (formatChunks body).
      c \<noteq> [] \<and> length c \<le> MAX_MESSAGE_LENGTH) \<and>
   (\<exists>g0 gs. length gs = length (formatChunks body) \<and>
      allWhiteSpace g0 \<and> list_all allWhiteSpace gs \<and>
      body = g0 @ concat (map2 (@) (formatChunks body) gs)) \<and>
   (allWhiteSpace (drop start body) \<longrightarrow>
      filter (\<lambda>c. c \<noteq> []) (formatChunks_loop body start chunks) = filter (\<lambda>c. c \<noteq> []) chunks)"
proof (intro conjI)
  show "\<forall>c \<in> set (formatChunks body). c \<noteq> [] \<and> length c \<le> MAX_MESSAGE_LENGTH"
    using loop_length_bound [where t = body and start = 0] by (simp add: formatChunks_def)
  show "\<exists>g0 gs. length gs = length (formatChunks body) \<and>
      allWhiteSpace g0 \<and> list_all allWhiteSpace gs \<and>
      body = g0 @ concat (map2 (@) (formatChunks body) gs)"
    using loop_reconstructs [where t = body and start = 0] by (simp add: formatChunks_def gapsOk_def)
  show "allWhiteSpace (drop start body) \<longrightarrow>
      filter (\<lambda>c. c \<noteq> []) (formatChunks_loop body start chunks) = filter (\<lambda>c. c \<noteq> []) chunks"
    by (simp add: loop_whitespace_remainder)
qed

lemma formatChunks_short_example: "formatChunks [32, 72, 105, 10] = [[72, 105]]"
  by (simp add: formatChunks_def loop_last MAX_MESSAGE_LENGTH_def trim_def isWhiteSpace_def)

theorem formatChunks_contract_witness:
  "formatChunks [32, 72, 105, 10] = [[72, 105]] \<and>
   length [72, 105 :: unit16] \<le> MAX_MESSAGE_LENGTH \<and>
   allWhiteSpace (drop 3 [32, 72, 105, 10]) \<and>
   filter (\<lambda>c. c \<noteq> []) (formatChunks_loop [32, 72, 105, 10] 3 [[72, 105]]) = [[72, 105]]"
  using formatChunks_contract [of "[32, 72, 105, 10]" 3 "[[72, 105]]"]
  by (simp add: formatChunks_short_example allWhiteSpace_def isWhiteSpace_def)

section \<open>Files and start-up\<close>

text \<open>
  The three input files are JSON. A file is modelled by what reading and parsing it gives:
  it is missing (\<open>ENOENT\<close>), unreadable for another reason, or has contents that
  \<open>JSON.parse\<close> either rejects (\<open>None\<close>) or turns into a value. Object members are
  an association list, looked up with \<open>map_of\<close>; their keys are ASCII names. Numbers are
  integers, as the progress file's \<open>currentLesson\<close> is.
\<close>

datatype json =
    JNull
  | JBool bool
  | JNum int
  | JStr jsstring
  | JArr "json list"
  | JObj "(string \<times> json) list"

datatype error =
    ENOENT
  | IOFailure
  | SyntaxError
  | ExpectedArray
  | NoLessonsFound
  | CorruptedProgressFile
  | MissingToken
  | TransportFailure

datatype disk_file = Missing | Unreadable | Contents "json option"

definition readJsonFile :: "disk_file \<Rightarrow> json \<Rightarrow> error + json" where
  "readJsonFile f fallback =
     (case f of
        Missing \<Rightarrow> Inr fallback
      | Unreadable \<Rightarrow> Inl IOFailure
      | Contents None \<Rightarrow> Inl SyntaxError
      | Contents (Some v) \<Rightarrow> Inr v)"

definition TOTAL_AUDIO_FILES :: nat where
  "TOTAL_AUDIO_FILES = 100"

definition TOTAL_IMAGE_FILES :: nat where
  "TOTAL_IMAGE_FILES = 99"

definition loadLessons :: "disk_file \<Rightarrow> error + json list" where
  "loadLessons f =
     (case readJsonFile f (JArr []) of
        Inl e \<Rightarrow> Inl e
      | Inr (JArr data) \<Rightarrow>
          (let limited = take (min TOTAL_IMAGE_FILES (min TOTAL_AUDIO_FILES (length data))) data
           in if length limited = 0 then Inl NoLessonsFound else Inr limited)
      | Inr _ \<Rightarrow> Inl ExpectedArray)"

definition loadVideos :: "disk_file \<Rightarrow> nat \<Rightarrow> error + json list" where
  "loadVideos f lessonCount =
     (case readJsonFile f (JArr []) of
        Inl e \<Rightarrow> Inl e
      | Inr (JArr data) \<Rightarrow> Inr (take lessonCount data)
      | Inr _ \<Rightarrow> Inr [])"

text \<open>
  JavaScript's truthiness, \<open>typeof v === 'object'\<close> (true of \<open>null\<close> and of arrays
  as well), \<open>Array.isArray\<close>, member access and member assignment on parsed values.
\<close>

fun truthy :: "json \<Rightarrow> bool" where
  "truthy JNull = False"
| "truthy (JBool b) = b"
| "truthy (JNum n) = (n \<noteq> 0)"
| "truthy (JStr s) = (s \<noteq> [])"
| "truthy (JArr _) = True"
| "truthy (JObj _) = True"

fun typeof_object :: "json \<Rightarrow> bool" where
  "typeof_object JNull = True"
| "typeof_object (JArr _) = True"
| "typeof_object (JObj _) = True"
| "typeof_object _ = False"

fun isArray :: "json \<Rightarrow> bool" where
  "isArray (JArr _) = True"
| "isArray _ = False"

fun getField :: "json \<Rightarrow> string \<Rightarrow> json option" where
  "getField (JObj members) k = map_of members k"
| "getField _ k = None"

fun setField :: "json \<Rightarrow> string \<Rightarrow> json \<Rightarrow> json" where
  "setField (JObj members) k v = JObj (AList.update k v members)"
| "setField j k v = j"

definition emptyProgress :: json where
  "emptyProgress = JObj [(''users'', JObj [])]"

text \<open>
  Lines 130 to 138 of the bot: read the progress file with \<open>{ users: {} }\<close> as the
  fallback, throw when the value is not a plain object, and reset \<open>users\<close> to the empty
  object when it is missing, falsy or not an object.
\<close>

definition loadProgress :: "disk_file \<Rightarrow> error + json" where
  "loadProgress f =
     (case readJsonFile f emptyProgress of
        Inl e \<Rightarrow> Inl e
      | Inr progress \<Rightarrow>
          if \<not> typeof_object progress \<or> progress = JNull \<or> isArray progress
          then Inl CorruptedProgressFile
          else if (case getField progress ''users'' of
                     None \<Rightarrow> True
                   | Some u \<Rightarrow> \<not> truthy u \<or> \<not> typeof_object u)
          then Inr (setField progress ''users'' (JObj []))
          else Inr progress)"

text \<open>
  The module's top level up to the creation of the bot: the token check (which exits),
  the lessons, the videos, the progress and the data directory. \<open>Inl\<close> means that the
  process stops there, before any handler or schedule is registered.
\<close>

record boot =
  token :: "string option"
  lessonsFile :: disk_file
  videosFile :: disk_file
  progressFile :: disk_file
  mkdirFailure :: "error option"

record loaded =
  bootLessons :: "json list"
  bootVideos :: "json list"
  bootProgress :: json

definition startup :: "boot \<Rightarrow> error + loaded" where
  "startup b =
     (if token b = None \<or> token b = Some [] then Inl MissingToken
      else case loadLessons (lessonsFile b) of
        Inl e \<Rightarrow> Inl e
      | Inr ls \<Rightarrow>
         (case loadVideos (videosFile b) (length ls) of
            Inl e \<Rightarrow> Inl e
          | Inr vs \<Rightarrow>
             (case loadProgress (progressFile b) of
                Inl e \<Rightarrow> Inl e
              | Inr p \<Rightarrow>
                 (case mkdirFailure b of
                    Some e \<Rightarrow> Inl e
                  | None \<Rightarrow> Inr \<lparr>bootLessons = ls, bootVideos = vs, bootProgress = p\<rparr>))))"

text \<open>
  The shape that the specification gives for the persisted progress file,
  \<open>{ users: { id: { currentLesson: integer, lastSentAt: string|null, joinedAt: string } } }\<close>,
  written down from the specification's words; the start-up code does not use it.
\<close>

fun specUserRecord :: "json \<Rightarrow> bool" where
  "specUserRecord (JObj members) =
     ((case map_of members ''currentLesson'' of Some (JNum n) \<Rightarrow> True | _ \<Rightarrow> False) \<and>
      (case map_of members ''lastSentAt'' of Some (JStr s) \<Rightarrow> True | Some JNull \<Rightarrow> True | _ \<Rightarrow> False) \<and>
      (case map_of members ''joinedAt'' of Some (JStr s) \<Rightarrow> True | _ \<Rightarrow> False))"
| "specUserRecord _ = False"

fun specProgressShape :: "json \<Rightarrow> bool" where
  "specProgressShape (JObj members) =
     (case map_of members ''users'' of
        Some (JObj us) \<Rightarrow> list_all (\<lambda>kv. specUserRecord (snd kv)) us
      | _ \<Rightarrow> False)"
| "specProgressShape _ = False"

text \<open>
  Everything of start-up but the progress file is in order: a non-empty token, lessons
  and videos that load, and a data directory that can be created.
\<close>

definition bootReady :: "boot \<Rightarrow> json list \<Rightarrow> json list \<Rightarrow> bool" where
  "bootReady b ls vs \<longleftrightarrow>
     (case token b of None \<Rightarrow> False | Some t \<Rightarrow> t \<noteq> []) \<and>
     loadLessons (lessonsFile b) = Inr ls \<and>
     loadVideos (videosFile b) (length ls) = Inr vs \<and>
     mkdirFailure b = None"

text \<open>
  A start-up with one lesson, no video file and the given progress file.
\<close>

definition demoBoot :: "disk_file \<Rightarrow> boot" where
  "demoBoot f = \<lparr>token = Some ''t'', lessonsFile = Contents (Some (JArr [JStr [76]])),
                 videosFile = Missing, progressFile = f, mkdirFailure = None\<rparr>"

subsection \<open>Properties of start-up\<close>

lemma loadProgress_Missing: "loadProgress Missing = Inr emptyProgress"
  by (simp add: loadProgress_def readJsonFile_def emptyProgress_def)

lemma loadProgress_unparsable: "loadProgress (Contents None) = Inl SyntaxError"
  by (simp add: loadProgress_def readJsonFile_def)

lemma loadProgress_not_object:
  "(\<forall>members. v \<noteq> JObj members) \<Longrightarrow> loadProgress (Contents (Some v)) = Inl CorruptedProgressFile"
  by (cases v) (simp_all add: loadProgress_def readJsonFile_def)

lemma loadProgress_object:
  "loadProgress (Contents (Some (JObj members))) =
     Inr (case map_of members ''users'' of
            Some (JObj us) \<Rightarrow> JObj members
          | Some (JArr xs) \<Rightarrow> JObj members
          | _ \<Rightarrow> JObj (AList.update ''users'' (JObj []) members))"
proof (cases "map_of members ''users''")
  case None
  then show ?thesis by (simp add: loadProgress_def readJsonFile_def)
next
  case (Some u)
  then show ?thesis by (cases u) (simp_all add: loadProgress_def readJsonFile_def)
qed

lemma startup_ready:
  assumes "bootReady b ls vs"
  shows "startup b =
     (case loadProgress (progressFile b) of
        Inl err \<Rightarrow> Inl err
      | Inr p \<Rightarrow> Inr \<lparr>bootLessons = ls, bootVideos = vs, bootProgress = p\<rparr>)"
  using assms by (auto simp: bootReady_def startup_def split: option.splits sum.splits)

lemma demoBoot_ready: "bootReady (demoBoot f) [JStr [76]] []"
  by (simp add: bootReady_def demoBoot_def loadLessons_def loadVideos_def readJsonFile_def
                TOTAL_IMAGE_FILES_def TOTAL_AUDIO_FILES_def)

text \<open>
  Claim C6, as amended. With the token, the lessons, the videos and the data directory in
  order, and a progress file that exists: start-up halts with \<open>SyntaxError\<close> when
  the contents are not JSON, and with \<open>CorruptedProgressFile\<close> when the parsed value
  is not a plain object (a primitive, \<open>null\<close> or an array). When the value is an object,
  start-up does not halt: a \<open>users\<close> member that is an object or an array is kept as it
  is, and a missing, falsy or primitive one is replaced by the empty map. The subscriber
  records themselves are never inspected at start-up.
\<close>

theorem corrupted_progress_file_handling:
  assumes "bootReady b ls vs" and "progressFile b = Contents p"
  shows "(p = None \<longrightarrow> startup b = Inl SyntaxError) \<and>
         (\<forall>v. p = Some v \<and> (\<forall>members. v \<noteq> JObj members) \<longrightarrow>
              startup b = Inl CorruptedProgressFile) \<and>
         (\<forall>members. p = Some (JObj members) \<longrightarrow>
              startup b = Inr \<lparr>bootLessons = ls, bootVideos = vs,
                 bootProgress =
                   (case map_of members ''users'' of
                      Some (JObj us) \<Rightarrow> JObj members
                    | Some (JArr xs) \<Rightarrow> JObj members
                    | _ \<Rightarrow> JObj (AList.update ''users'' (JObj []) members))\<rparr>)"
  using assms(2)
  by (auto simp: startup_ready [OF assms(1)] loadProgress_unparsable loadProgress_not_object
                 loadProgress_object)

theorem corrupted_progress_file_witness:
  "startup (demoBoot (Contents None)) = Inl SyntaxError \<and>
   startup (demoBoot (Contents (Some (JArr [])))) = Inl CorruptedProgressFile \<and>
   startup (demoBoot (Contents (Some (JObj [])))) =
     Inr \<lparr>bootLessons = [JStr [76]], bootVideos = [], bootProgress = JObj [(''users'', JObj [])]\<rparr>"
  using corrupted_progress_file_handling [OF demoBoot_ready, of "Contents None" None]
        corrupted_progress_file_handling [OF demoBoot_ready, of "Contents (Some (JArr []))" "Some (JArr [])"]
        corrupted_progress_file_handling [OF demoBoot_ready, of "Contents (Some (JObj []))" "Some (JObj [])"]
  by (simp add: demoBoot_def)

text \<open>
  Claim C6 as stated fails: the file \<open>{"users": 5}\<close> is not of the specified shape,
  yet start-up completes, with an empty subscriber map.
\<close>

theorem corrupted_progress_file_counterexample:
  "\<not> specProgressShape (JObj [(''users'', JNum 5)]) \<and>
   startup (demoBoot (Contents (Some (JObj [(''users'', JNum 5)])))) =
     Inr \<lparr>bootLessons = [JStr [76]], bootVideos = [], bootProgress = JObj [(''users'', JObj [])]\<rparr>"
  unfolding startup_ready [OF demoBoot_ready]
  by (simp add: demoBoot_def loadProgress_object)

text \<open>
  Claim C7, as amended. A non-empty lesson array is cut to its first 99 entries
  (\<open>min(TOTAL_IMAGE_FILES, TOTAL_AUDIO_FILES, length) = min(99, length)\<close>): with at
  least 99 entries supplied the curriculum has exactly 99 lessons.
\<close>

theorem loadLessons_limit:
  assumes "data \<noteq> []"
  shows "loadLessons (Contents (Some (JArr data))) = Inr (take 99 data) \<and>
         length (take 99 data) = min 99 (length data)"
  using assms
  by (simp add: loadLessons_def readJsonFile_def TOTAL_IMAGE_FILES_def TOTAL_AUDIO_FILES_def Let_def min_def)

theorem loadLessons_limit_witness:
  "loadLessons (Contents (Some (JArr (replicate 150 (JStr [76]))))) = Inr (replicate 99 (JStr [76]))"
  using loadLessons_limit [of "replicate 150 (JStr [76])"] by simp

text \<open>
  Claim C7 as stated fails: of 100 supplied lessons, 99 are loaded.
\<close>

theorem loadLessons_hundred_counterexample:
  "map_sum id length (loadLessons (Contents (Some (JArr (replicate 100 (JStr [76])))))) = Inr 99"
  by (simp add: loadLessons_def readJsonFile_def TOTAL_IMAGE_FILES_def TOTAL_AUDIO_FILES_def Let_def)

text \<open>
  Claim C10. When the progress file does not exist and the rest of start-up is in order,
  start-up completes and the progress is \<open>{ users: {} }\<close>: absence is a fresh store,
  not corruption.
\<close>

theorem missing_progress_file_starts_fresh:
  assumes "bootReady b ls vs" and "progressFile b = Missing"
  shows "startup b = Inr \<lparr>bootLessons = ls, bootVideos = vs, bootProgress = JObj [(''users'', JObj [])]\<rparr>"
  using assms(2) by (simp add: startup_ready [OF assms(1)] loadProgress_Missing emptyProgress_def)

theorem missing_progress_file_witness:
  "startup (demoBoot Missing) =
     Inr \<lparr>bootLessons = [JStr [76]], bootVideos = [], bootProgress = JObj [(''users'', JObj [])]\<rparr>"
  using missing_progress_file_starts_fresh [OF demoBoot_ready, of Missing]
  by (simp add: demoBoot_def)

section \<open>The running bot\<close>

subsection \<open>Chat identities\<close>

text \<open>
  A chat id reaches the bot as a number (\<open>msg.chat.id\<close> in a command handler) or as a
  string (a key of \<open>progress.users\<close> in the scheduler). \<open>String_of\<close> is
  \<open>String(chatId)\<close>, the key under which the subscriber is stored;
  \<open>normalizeChatId\<close> turns a value whose text is an optional minus sign and then
  digits only into the number that \<open>parseInt\<close> reads, and leaves any other value
  alone. Integers are unbounded here.
\<close>

datatype chat_id = NumId int | StrId string

definition digitChar :: "nat \<Rightarrow> char" where
  "digitChar d = char_of (48 + d)"

fun decimal :: "nat \<Rightarrow> string" where
  "decimal n = (if n < 10 then [digitChar n] else decimal (n div 10) @ [digitChar (n mod 10)])"

declare decimal.simps [simp del]

definition String_of :: "chat_id \<Rightarrow> string" where
  "String_of v =
     (case v of
        NumId n \<Rightarrow> (if n < 0 then CHR ''-'' # decimal (nat (- n)) else decimal (nat n))
      | StrId s \<Rightarrow> s)"

definition isDigit :: "char \<Rightarrow> bool" where
  "isDigit c \<longleftrightarrow> (48::nat) \<le> of_char c \<and> (of_char c :: nat) \<le> 57"

definition parseDigits :: "string \<Rightarrow> nat" where
  "parseDigits ds = foldl (\<lambda>acc c. 10 * acc + (of_char c - 48)) 0 ds"

definition isIntegerText :: "string \<Rightarrow> bool" where
  "isIntegerText s =
     (case s of
        [] \<Rightarrow> False
      | c # cs \<Rightarrow> if c = CHR ''-'' then cs \<noteq> [] \<and> list_all isDigit cs
                  else list_all isDigit (c # cs))"

definition parseInt :: "string \<Rightarrow> int" where
  "parseInt s =
     (case s of
        [] \<Rightarrow> 0
      | c # cs \<Rightarrow> if c = CHR ''-'' then - int (parseDigits cs) else int (parseDigits (c # cs)))"

definition normalizeChatId :: "chat_id \<Rightarrow> chat_id" where
  "normalizeChatId v =
     (let s = String_of v in if isIntegerText s then NumId (parseInt s) else v)"

subsection \<open>Curriculum, progress store and the outside world\<close>

text \<open>
  \<open>config\<close> holds the two arrays loaded at start-up, with the lessons as strings and
  the videos as records. \<open>store\<close> is \<open>progress.users\<close>: an object is a list of
  entries with distinct keys, in the order in which \<open>Object.entries\<close> lists them; a
  new key is put at the end. Each entry is a subscriber record of the documented shape.
\<close>

type_synonym timestamp = string

record video =
  title :: "jsstring option"
  url :: jsstring

record config =
  lessons :: "jsstring list"
  videos :: "video list"

record user_state =
  currentLesson :: int
  lastSentAt :: "timestamp option"
  joinedAt :: timestamp

type_synonym store = "(string \<times> user_state) list"

text \<open>
  The texts that the bot sends are fixed Persian templates; a message is modelled by its
  template and the values filled in.
\<close>

datatype caption_line = TitleLine jsstring | UrlLine jsstring

datatype message =
    LessonUnavailable int
  | LessonChunk jsstring
  | VideoCaption "caption_line list"
  | CourseCompleted
  | Welcome
  | WelcomeBack int nat
  | HelpText
  | LessonRangeHint nat
  | LessonRequested nat

text \<open>
  The calls that can fail: sends through the bot API, \<open>fs.access\<close> of the image or
  audio file of a lesson number, and the two file operations of \<open>saveProgress\<close>.
\<close>

datatype action =
    SendMessage chat_id message
  | AccessImage int
  | SendPhoto chat_id int
  | AccessAudio int
  | SendAudio chat_id int
  | WriteTmp store
  | RenameTmp

datatype log_entry =
    ImageFailed int error
  | AudioFailed int error
  | DeliverFailed int string error
  | Delivering timestamp nat

text \<open>
  The outside world decides the result of every such call: \<open>outcome e t a\<close> is the
  error that call \<open>a\<close> raises when it is the \<open>t\<close>-th call of the run, or \<open>None\<close>
  when it succeeds; \<open>now e t\<close> is the ISO time stamp read at that moment. Any pattern
  of failures is some \<open>env\<close>.

  \<open>world\<close> is what the run changes: the in-memory store, the temporary and the real
  progress file, the calls that succeeded (oldest first), the console, and the call
  counter.
\<close>

record env =
  outcome :: "nat \<Rightarrow> action \<Rightarrow> error option"
  now :: "nat \<Rightarrow> timestamp"

record world =
  users :: store
  tmpFile :: "store option"
  progressOnDisk :: "store option"
  effects :: "action list"
  console :: "log_entry list"
  clock :: nat

datatype completion = Returned | Threw error

definition perform :: "env \<Rightarrow> action \<Rightarrow> world \<Rightarrow> completion \<times> world" where
  "perform e a w =
     (case outcome e (clock w) a of
        None \<Rightarrow> (Returned, w\<lparr>effects := effects w @ [a], clock := Suc (clock w)\<rparr>)
      | Some err \<Rightarrow> (Threw err, w\<lparr>clock := Suc (clock w)\<rparr>))"

text \<open>
  \<open>andThen r f\<close> is \<open>await\<close> followed by the rest of the body: an exception skips the rest.
\<close>

definition andThen ::
  "completion \<times> world \<Rightarrow> (world \<Rightarrow> completion \<times> world) \<Rightarrow> completion \<times> world" where
  "andThen r f = (case r of (Returned, w) \<Rightarrow> f w | (Threw err, w) \<Rightarrow> (Threw err, w))"

definition logLine :: "log_entry \<Rightarrow> world \<Rightarrow> world" where
  "logLine l w = w\<lparr>console := console w @ [l]\<rparr>"

text \<open>
  \<open>saveProgress\<close>: write the store to the temporary file, then rename it over the real one.
\<close>

definition saveProgress :: "env \<Rightarrow> world \<Rightarrow> completion \<times> world" where
  "saveProgress e w =
     andThen (perform e (WriteTmp (users w)) w) (\<lambda>w1.
       let w2 = w1\<lparr>tmpFile := Some (users w1)\<rparr> in
       andThen (perform e RenameTmp w2) (\<lambda>w3.
         (Returned, w3\<lparr>progressOnDisk := tmpFile w3, tmpFile := None\<rparr>)))"

definition ensureUserState :: "env \<Rightarrow> chat_id \<Rightarrow> world \<Rightarrow> world" where
  "ensureUserState e chatId w =
     (let key = String_of chatId in
      case map_of (users w) key of
        None \<Rightarrow>
          w\<lparr>users := AList.update key
                 \<lparr>currentLesson = 0, lastSentAt = None, joinedAt = now e (clock w)\<rparr> (users w)\<rparr>
      | Some _ \<Rightarrow> w)"

text \<open>
  \<open>lessons[lessonIndex]\<close> and \<open>videos[lessonIndex]\<close>: \<open>undefined\<close> (here
  \<open>None\<close>) outside the array.
\<close>

definition lessonAt :: "config \<Rightarrow> int \<Rightarrow> jsstring option" where
  "lessonAt cfg i = (if 0 \<le> i \<and> i < int (length (lessons cfg)) then Some (lessons cfg ! nat i) else None)"

definition videoAt :: "config \<Rightarrow> int \<Rightarrow> video option" where
  "videoAt cfg i = (if 0 \<le> i \<and> i < int (length (videos cfg)) then Some (videos cfg ! nat i) else None)"

text \<open>
  The two \<open>try\<close> blocks of \<open>sendLessonAssets\<close> and their common \<open>catch\<close>: the
  error is swallowed, and written to the console unless its code is \<open>ENOENT\<close>.
\<close>

definition catchAsset :: "(error \<Rightarrow> log_entry) \<Rightarrow> completion \<times> world \<Rightarrow> world" where
  "catchAsset entry r =
     (case r of
        (Returned, w) \<Rightarrow> w
      | (Threw err, w) \<Rightarrow> if err \<noteq> ENOENT then logLine (entry err) w else w)"

definition tryImage :: "env \<Rightarrow> chat_id \<Rightarrow> int \<Rightarrow> world \<Rightarrow> completion \<times> world" where
  "tryImage e chatRef lessonNumber w =
     andThen (perform e (AccessImage lessonNumber) w)
             (perform e (SendPhoto chatRef lessonNumber))"

definition sendImage :: "env \<Rightarrow> chat_id \<Rightarrow> int \<Rightarrow> world \<Rightarrow> world" where
  "sendImage e chatRef lessonNumber w =
     catchAsset (ImageFailed lessonNumber) (tryImage e chatRef lessonNumber w)"

definition tryAudio :: "env \<Rightarrow> chat_id \<Rightarrow> int \<Rightarrow> world \<Rightarrow> completion \<times> world" where
  "tryAudio e chatRef lessonNumber w =
     andThen (perform e (AccessAudio lessonNumber) w)
             (perform e (SendAudio chatRef lessonNumber))"

definition sendAudioFile :: "env \<Rightarrow> chat_id \<Rightarrow> int \<Rightarrow> world \<Rightarrow> world" where
  "sendAudioFile e chatRef lessonNumber w =
     catchAsset (AudioFailed lessonNumber) (tryAudio e chatRef lessonNumber w)"

text \<open>
  The \<open>for\<close> loop over the chunks: one send after the other, the first failure ends it.
\<close>

fun sendChunks :: "env \<Rightarrow> chat_id \<Rightarrow> jsstring list \<Rightarrow> world \<Rightarrow> completion \<times> world" where
  "sendChunks e chatRef [] w = (Returned, w)"
| "sendChunks e chatRef (chunk # rest) w =
     andThen (perform e (SendMessage chatRef (LessonChunk chunk)) w) (sendChunks e chatRef rest)"

text \<open>
  The last step of \<open>sendLessonAssets\<close>, outside any \<open>try\<close>: the message with the video link.
\<close>

definition videoCaptionLines :: "video \<Rightarrow> caption_line list" where
  "videoCaptionLines v =
     (case title v of
        None \<Rightarrow> []
      | Some t \<Rightarrow> if t \<noteq> [] then [TitleLine t] else []) @
     (if url v \<noteq> [] then [UrlLine (url v)] else [])"

definition sendVideoLink :: "config \<Rightarrow> env \<Rightarrow> chat_id \<Rightarrow> int \<Rightarrow> world \<Rightarrow> completion \<times> world" where
  "sendVideoLink cfg e chatRef lessonIndex w =
     (case videoAt cfg lessonIndex of
        None \<Rightarrow> (Returned, w)
      | Some videoMeta \<Rightarrow>
          perform e (SendMessage chatRef (VideoCaption (videoCaptionLines videoMeta))) w)"

definition sendLessonAssets ::
  "config \<Rightarrow> env \<Rightarrow> chat_id \<Rightarrow> int \<Rightarrow> world \<Rightarrow> completion \<times> world" where
  "sendLessonAssets cfg e chatId lessonIndex w =
     (let chatRef = normalizeChatId chatId;
          lessonNumber = lessonIndex + 1
      in case lessonAt cfg lessonIndex of
           None \<Rightarrow> perform e (SendMessage chatRef (LessonUnavailable lessonNumber)) w
         | Some lessonText \<Rightarrow>
             if lessonText = [] then
               perform e (SendMessage chatRef (LessonUnavailable lessonNumber)) w
             else
               andThen (sendChunks e chatRef (formatChunks lessonText)
                          (sendImage e chatRef lessonNumber w))
                 (\<lambda>w2. sendVideoLink cfg e chatRef lessonIndex
                         (sendAudioFile e chatRef lessonNumber w2)))"

text \<open>
  The assignments \<open>userState.currentLesson = v\<close> and \<open>userState.lastSentAt = ts\<close>, where
  \<open>userState\<close> is the record stored under the key.
\<close>

definition setCurrentLesson :: "string \<Rightarrow> int \<Rightarrow> world \<Rightarrow> world" where
  "setCurrentLesson key v w =
     w\<lparr>users := AList.map_entry key (\<lambda>s. s\<lparr>currentLesson := v\<rparr>) (users w)\<rparr>"

definition setLastSentAt :: "string \<Rightarrow> timestamp \<Rightarrow> world \<Rightarrow> world" where
  "setLastSentAt key ts w =
     w\<lparr>users := AList.map_entry key (\<lambda>s. s\<lparr>lastSentAt := Some ts\<rparr>) (users w)\<rparr>"

definition sendLessonToUser ::
  "config \<Rightarrow> env \<Rightarrow> chat_id \<Rightarrow> int \<Rightarrow> world \<Rightarrow> completion \<times> world" where
  "sendLessonToUser cfg e chatId lessonIndex w =
     (let chatRef = normalizeChatId chatId;
          key = String_of chatId;
          w0 = ensureUserState e chatId w;
          total = int (length (lessons cfg))
      in if lessonIndex \<ge> total then
           andThen (perform e (SendMessage chatRef CourseCompleted) w0) (\<lambda>w1.
             saveProgress e (setCurrentLesson key total w1))
         else
           (case andThen (sendLessonAssets cfg e chatId lessonIndex w0) (\<lambda>w1.
                   let w2 = setCurrentLesson key (min (lessonIndex + 1) total) w1;
                       w3 = setLastSentAt key (now e (clock w2)) w2
                   in saveProgress e w3) of
              (Returned, w4) \<Rightarrow> (Returned, w4)
            | (Threw err, w4) \<Rightarrow>
                (Returned, logLine (DeliverFailed (lessonIndex + 1) key err) w4)))"

text \<open>
  The handlers of \<open>/start\<close> and of \<open>/lesson n\<close> (the pattern admits one to three digits).
\<close>

definition startCommand :: "config \<Rightarrow> env \<Rightarrow> int \<Rightarrow> world \<Rightarrow> completion \<times> world" where
  "startCommand cfg e chat w =
     (let chatId = NumId chat;
          chatKey = String_of chatId
      in case map_of (users w) chatKey of
           None \<Rightarrow>
             andThen (saveProgress e (ensureUserState e chatId w)) (\<lambda>w1.
             andThen (perform e (SendMessage chatId Welcome) w1) (\<lambda>w2.
             andThen (sendLessonToUser cfg e chatId 0 w2) (\<lambda>w3.
               perform e (SendMessage chatId HelpText) w3)))
         | Some existingState \<Rightarrow>
             andThen (perform e (SendMessage chatId
                        (WelcomeBack (min (currentLesson existingState) (int (length (lessons cfg))))
                                     (length (lessons cfg)))) w) (\<lambda>w1.
               perform e (SendMessage chatId HelpText) w1))"

definition lessonCommand :: "config \<Rightarrow> env \<Rightarrow> int \<Rightarrow> nat \<Rightarrow> world \<Rightarrow> completion \<times> world" where
  "lessonCommand cfg e chat lessonRequested w =
     (let chatId = NumId chat in
      if lessonRequested < 1 \<or> lessonRequested > length (lessons cfg) then
        perform e (SendMessage chatId (LessonRangeHint (length (lessons cfg)))) w
      else
        andThen (perform e (SendMessage chatId (LessonRequested lessonRequested)) w)
          (sendLessonAssets cfg e chatId (int lessonRequested - 1)))"

text \<open>
  The scheduler. The loop runs over the entries listed when the tick starts; each entry
  holds a reference to the subscriber's record, so \<open>state.currentLesson\<close> is read from the
  store as it is when the entry's turn comes. An entry without a record is skipped (the
  test \<open>!state\<close>); the test that \<open>currentLesson\<close> is a number cannot fail on a record
  of the documented shape. The pause of one second between two subscribers changes
  nothing in the world and is left out.
\<close>

fun deliverLoop :: "config \<Rightarrow> env \<Rightarrow> string list \<Rightarrow> world \<Rightarrow> completion \<times> world" where
  "deliverLoop cfg e [] w = (Returned, w)"
| "deliverLoop cfg e (chatId # rest) w =
     (case map_of (users w) chatId of
        None \<Rightarrow> deliverLoop cfg e rest w
      | Some state \<Rightarrow>
          if currentLesson state \<ge> int (length (lessons cfg)) then deliverLoop cfg e rest w
          else andThen (sendLessonToUser cfg e (StrId chatId) (currentLesson state) w)
                 (deliverLoop cfg e rest))"

definition deliverDailyLessons :: "config \<Rightarrow> env \<Rightarrow> world \<Rightarrow> completion \<times> world" where
  "deliverDailyLessons cfg e w =
     (let userEntries = users w in
      if length userEntries = 0 then (Returned, w)
      else deliverLoop cfg e (map fst userEntries)
             (logLine (Delivering (now e (clock w)) (length userEntries)) w))"

subsection \<open>Observing a run\<close>

text \<open>
  \<open>quiet w w'\<close>: from \<open>w\<close> to \<open>w'\<close> the store is the same, and the console and
  the list of calls have only grown. \<open>touchesOnly k\<close> lets the record under \<open>k\<close>
  change; \<open>grows\<close> speaks of the console and the calls only.
\<close>

definition quiet :: "world \<Rightarrow> world \<Rightarrow> bool" where
  "quiet w w' \<longleftrightarrow>
     users w' = users w \<and> prefix (console w) (console w') \<and> prefix (effects w) (effects w')"

definition touchesOnly :: "string \<Rightarrow> world \<Rightarrow> world \<Rightarrow> bool" where
  "touchesOnly k w w' \<longleftrightarrow>
     (\<forall>k'. k' \<noteq> k \<longrightarrow> map_of (users w') k' = map_of (users w) k') \<and>
     prefix (console w) (console w') \<and> prefix (effects w) (effects w')"

definition grows :: "world \<Rightarrow> world \<Rightarrow> bool" where
  "grows w w' \<longleftrightarrow> prefix (console w) (console w') \<and> prefix (effects w) (effects w')"

text \<open>
  The console lines and the successful calls added between two worlds.
\<close>

definition newLines :: "world \<Rightarrow> world \<Rightarrow> log_entry list" where
  "newLines w w' = drop (length (console w)) (console w')"

definition newEffects :: "world \<Rightarrow> world \<Rightarrow> action list" where
  "newEffects w w' = drop (length (effects w)) (effects w')"

definition isDeliverFailed :: "int \<Rightarrow> string \<Rightarrow> log_entry \<Rightarrow> bool" where
  "isDeliverFailed n k l = (case l of DeliverFailed n' k' err \<Rightarrow> n' = n \<and> k' = k | _ \<Rightarrow> False)"

text \<open>
  A due subscriber with record \<open>s\<close> has had its turn between \<open>w\<close> and \<open>w'\<close>:
  either its record now stands one lesson further with a \<open>lastSentAt\<close>, or a console line
  added since \<open>w\<close> reports the failed delivery of that lesson to that subscriber.
\<close>

definition attempted :: "string \<Rightarrow> user_state \<Rightarrow> world \<Rightarrow> world \<Rightarrow> bool" where
  "attempted k s w w' \<longleftrightarrow>
     (case map_of (users w') k of
        Some s' \<Rightarrow> currentLesson s' = currentLesson s + 1 \<and> lastSentAt s' \<noteq> None
      | None \<Rightarrow> False) \<or>
     list_ex (isDeliverFailed (currentLesson s + 1) k) (newLines w w')"

text \<open>
  The two assignments that follow a successful \<open>sendLessonAssets\<close>, taken together.
\<close>

definition recordDelivery :: "config \<Rightarrow> env \<Rightarrow> string \<Rightarrow> int \<Rightarrow> world \<Rightarrow> world" where
  "recordDelivery cfg e key i w1 =
     setLastSentAt key (now e (clock w1))
       (setCurrentLesson key (min (i + 1) (int (length (lessons cfg)))) w1)"

text \<open>
  The invariant of the store: every position is between 0 and the number of lessons.
\<close>

definition positionOk :: "config \<Rightarrow> user_state \<Rightarrow> bool" where
  "positionOk cfg s \<longleftrightarrow> 0 \<le> currentLesson s \<and> currentLesson s \<le> int (length (lessons cfg))"

definition storeInv :: "config \<Rightarrow> world \<Rightarrow> bool" where
  "storeInv cfg w = list_all (\<lambda>entry. positionOk cfg (snd entry)) (users w)"

definition positionOf :: "string \<Rightarrow> world \<Rightarrow> int option" where
  "positionOf k w = map_option currentLesson (map_of (users w) k)"

subsection \<open>Scenarios\<close>

definition newcomer :: user_state where
  "newcomer = \<lparr>currentLesson = 0, lastSentAt = None, joinedAt = ''2025-01-01T00:00:00.000Z''\<rparr>"

definition oneLesson :: config where
  "oneLesson = \<lparr>lessons = [[72, 105]], videos = []\<rparr>"

definition lessonWithVideo :: config where
  "lessonWithVideo = \<lparr>lessons = [[72, 105]], videos = [\<lparr>title = None, url = [104]\<rparr>]\<rparr>"

definition sixLessons :: config where
  "sixLessons = \<lparr>lessons = replicate 6 [72, 105], videos = []\<rparr>"

definition emptyFirstLesson :: config where
  "emptyFirstLesson = \<lparr>lessons = [[], [72, 105]], videos = []\<rparr>"

text \<open>
  No image or audio files; every send succeeds.
\<close>

definition calm :: env where
  "calm =
     \<lparr>outcome = (\<lambda>t a. case a of
                   AccessImage n \<Rightarrow> Some ENOENT
                 | AccessAudio n \<Rightarrow> Some ENOENT
                 | _ \<Rightarrow> None),
      now = (\<lambda>t. ''2025-01-02T06:00:00.000Z'')\<rparr>"

text \<open>
  No image or audio files; every send to chat 42 fails.
\<close>

definition chat42Down :: env where
  "chat42Down =
     \<lparr>outcome = (\<lambda>t a. case a of
                   SendMessage c m \<Rightarrow> if c = NumId 42 then Some TransportFailure else None
                 | AccessImage n \<Rightarrow> Some ENOENT
                 | AccessAudio n \<Rightarrow> Some ENOENT
                 | _ \<Rightarrow> None),
      now = (\<lambda>t. ''2025-01-02T06:00:00.000Z'')\<rparr>"

text \<open>
  The image and audio files exist but their uploads fail.
\<close>

definition uploadsFail :: env where
  "uploadsFail =
     \<lparr>outcome = (\<lambda>t a. case a of
                   SendPhoto c n \<Rightarrow> Some TransportFailure
                 | SendAudio c n \<Rightarrow> Some TransportFailure
                 | _ \<Rightarrow> None),
      now = (\<lambda>t. ''2025-01-02T06:00:00.000Z'')\<rparr>"

text \<open>
  No image or audio files; the message with the video link is the only send that fails.
\<close>

definition videoLinkFails :: env where
  "videoLinkFails =
     \<lparr>outcome = (\<lambda>t a. case a of
                   SendMessage c (VideoCaption ls) \<Rightarrow> Some TransportFailure
                 | AccessImage n \<Rightarrow> Some ENOENT
                 | AccessAudio n \<Rightarrow> Some ENOENT
                 | _ \<Rightarrow> None),
      now = (\<lambda>t. ''2025-01-02T06:00:00.000Z'')\<rparr>"

definition oneSubscriber :: world where
  "oneSubscriber =
     \<lparr>users = [(''7'', newcomer)],
      tmpFile = None, progressOnDisk = None, effects = [], console = [], clock = 0\<rparr>"

definition lateSubscriber :: world where
  "lateSubscriber =
     \<lparr>users = [(''7'', \<lparr>currentLesson = 5, lastSentAt = Some ''2025-01-02T06:00:00.000Z'',
                         joinedAt = ''2025-01-01T00:00:00.000Z''\<rparr>)],
      tmpFile = None, progressOnDisk = None, effects = [], console = [], clock = 0\<rparr>"

definition threeSubscribers :: world where
  "threeSubscribers =
     \<lparr>users = [(''7'', newcomer), (''42'', newcomer), (''99'', newcomer)],
      tmpFile = None, progressOnDisk = None, effects = [], console = [], clock = 0\<rparr>"

subsection \<open>Frame facts\<close>

lemma andThen_Returned [simp]: "andThen (Returned, w) f = f w"
  by (simp add: andThen_def)

lemma andThen_Threw [simp]: "andThen (Threw err, w) f = (Threw err, w)"
  by (simp add: andThen_def)

lemma andThen_cases:
  obtains (ok) w1 where "r = (Returned, w1)" "andThen r f = f w1"
        | (threw) err w1 where "r = (Threw err, w1)" "andThen r f = (Threw err, w1)"
proof (cases r)
  case (Pair c w1)
  then show ?thesis by (cases c) (auto intro: ok threw)
qed

lemma andThen_rel:
  assumes "R (snd r)" and "\<And>w1. R w1 \<Longrightarrow> R (snd (f w1))"
  shows "R (snd (andThen r f))"
  by (rule andThen_cases [of r f]) (use assms in auto)

lemma perform_ok:
  "outcome e (clock w) a = None \<Longrightarrow>
   perform e a w = (Returned, w\<lparr>effects := effects w @ [a], clock := Suc (clock w)\<rparr>)"
  by (simp add: perform_def)

lemma perform_fails:
  "outcome e (clock w) a = Some err \<Longrightarrow> perform e a w = (Threw err, w\<lparr>clock := Suc (clock w)\<rparr>)"
  by (simp add: perform_def)

lemma quiet_refl [simp]: "quiet w w"
  by (simp add: quiet_def)

lemma quiet_trans: "quiet w w1 \<Longrightarrow> quiet w1 w2 \<Longrightarrow> quiet w w2"
  by (auto simp: quiet_def)

lemma quiet_perform: "quiet w (snd (perform e a w))"
  by (simp add: perform_def quiet_def split: option.splits)

lemma quiet_logLine: "quiet w (logLine l w)"
  by (simp add: logLine_def quiet_def)

lemma quiet_andThen:
  assumes "quiet w (snd r)" and "\<And>w1. quiet w1 (snd (f w1))"
  shows "quiet w (snd (andThen r f))"
  using assms(1)
proof (rule andThen_rel [where R = "quiet w"])
  fix w1 assume "quiet w w1"
  then show "quiet w (snd (f w1))" using assms(2) by (rule quiet_trans)
qed

lemma quiet_catchAsset: "quiet w (snd r) \<Longrightarrow> quiet w (catchAsset entry r)"
  by (cases r; cases "fst r") (auto simp: catchAsset_def intro: quiet_trans quiet_logLine)

lemma quiet_tryImage: "quiet w (snd (tryImage e c n w))"
  unfolding tryImage_def by (intro quiet_andThen quiet_perform)

lemma quiet_tryAudio: "quiet w (snd (tryAudio e c n w))"
  unfolding tryAudio_def by (intro quiet_andThen quiet_perform)

lemma quiet_sendImage: "quiet w (sendImage e c n w)"
  unfolding sendImage_def
  by (intro quiet_catchAsset quiet_tryImage)

lemma quiet_sendAudioFile: "quiet w (sendAudioFile e c n w)"
  unfolding sendAudioFile_def
  by (intro quiet_catchAsset quiet_tryAudio)

lemma quiet_sendChunks: "quiet w (snd (sendChunks e c cs w))"
proof (induction cs arbitrary: w)
  case Nil
  show ?case by simp
next
  case (Cons chunk rest)
  show ?case by (simp only: sendChunks.simps) (intro quiet_andThen quiet_perform Cons.IH)
qed

lemma quiet_sendVideoLink: "quiet w (snd (sendVideoLink cfg e c i w))"
  by (auto simp: sendVideoLink_def split: option.splits intro: quiet_perform)

lemma sendLessonAssets_unavailable:
  assumes "lessonAt cfg i = None \<or> lessonAt cfg i = Some []"
  shows "sendLessonAssets cfg e chatId i w =
         perform e (SendMessage (normalizeChatId chatId) (LessonUnavailable (i + 1))) w"
  using assms by (auto simp: sendLessonAssets_def)

lemma sendLessonAssets_available:
  assumes "lessonAt cfg i = Some body" "body \<noteq> []"
  shows "sendLessonAssets cfg e chatId i w =
         andThen (sendChunks e (normalizeChatId chatId) (formatChunks body)
                    (sendImage e (normalizeChatId chatId) (i + 1) w))
           (\<lambda>w2. sendVideoLink cfg e (normalizeChatId chatId) i
                   (sendAudioFile e (normalizeChatId chatId) (i + 1) w2))"
  using assms by (simp add: sendLessonAssets_def Let_def)

lemma quiet_sendLessonAssets: "quiet w (snd (sendLessonAssets cfg e chatId i w))"
proof (cases "lessonAt cfg i = None \<or> lessonAt cfg i = Some []")
  case True
  then show ?thesis by (simp add: sendLessonAssets_unavailable quiet_perform)
next
  case False
  then obtain body where b: "lessonAt cfg i = Some body" "body \<noteq> []" by auto
  show ?thesis
    unfolding sendLessonAssets_available [OF b]
    by (intro quiet_andThen quiet_trans [OF quiet_sendImage quiet_sendChunks]
              quiet_trans [OF quiet_sendAudioFile quiet_sendVideoLink])
qed

lemma quiet_saveProgress: "quiet w (snd (saveProgress e w))"
proof -
  have 1: "\<And>w1. quiet w1 (w1\<lparr>tmpFile := Some (users w1)\<rparr>)" by (simp add: quiet_def)
  have 2: "\<And>w3. quiet w3 (w3\<lparr>progressOnDisk := tmpFile w3, tmpFile := None\<rparr>)" by (simp add: quiet_def)
  show ?thesis
    unfolding saveProgress_def Let_def
    by (intro quiet_andThen quiet_perform quiet_trans [OF 1 quiet_andThen]) (simp add: 2)
qed

lemma users_saveProgress: "users (snd (saveProgress e w)) = users w"
  using quiet_saveProgress [of w e] by (simp add: quiet_def)

lemma touchesOnly_refl [simp]: "touchesOnly k w w"
  by (simp add: touchesOnly_def)

lemma touchesOnly_trans: "touchesOnly k w w1 \<Longrightarrow> touchesOnly k w1 w2 \<Longrightarrow> touchesOnly k w w2"
  by (auto simp: touchesOnly_def)

lemma touchesOnly_quiet: "touchesOnly k w w1 \<Longrightarrow> quiet w1 w2 \<Longrightarrow> touchesOnly k w w2"
  by (auto simp: quiet_def touchesOnly_def)

lemma touchesOnly_ensureUserState: "touchesOnly (String_of chatId) w (ensureUserState e chatId w)"
  by (auto simp: touchesOnly_def ensureUserState_def Let_def update_conv' split: option.splits)

lemma touchesOnly_setCurrentLesson: "touchesOnly k w (setCurrentLesson k v w)"
  by (simp add: touchesOnly_def setCurrentLesson_def map_of_map_entry)

lemma touchesOnly_setLastSentAt: "touchesOnly k w (setLastSentAt k v w)"
  by (simp add: touchesOnly_def setLastSentAt_def map_of_map_entry)

lemma grows_refl [simp]: "grows w w"
  by (simp add: grows_def)

lemma grows_trans: "grows w w1 \<Longrightarrow> grows w1 w2 \<Longrightarrow> grows w w2"
  by (auto simp: grows_def)

lemma quiet_grows: "quiet w w' \<Longrightarrow> grows w w'"
  by (simp add: quiet_def grows_def)

lemma touchesOnly_grows: "touchesOnly k w w' \<Longrightarrow> grows w w'"
  by (simp add: touchesOnly_def grows_def)

lemma newLines_mono:
  assumes "prefix (console w) (console w1)" "prefix (console w1) (console w2)"
  shows "set (newLines w w1) \<subseteq> set (newLines w w2)"
    and "set (newLines w1 w2) \<subseteq> set (newLines w w2)"
proof -
  obtain a where a: "console w1 = console w @ a" using assms(1) by (auto simp: prefix_def)
  obtain b where b: "console w2 = console w1 @ b" using assms(2) by (auto simp: prefix_def)
  show "set (newLines w w1) \<subseteq> set (newLines w w2)"
    by (simp add: newLines_def a b)
  show "set (newLines w1 w2) \<subseteq> set (newLines w w2)"
    by (simp add: newLines_def a b)
qed

lemma newLines_logLine:
  assumes "prefix (console w) (console w1)"
  shows "l \<in> set (newLines w (logLine l w1))"
proof -
  obtain a where "console w1 = console w @ a" using assms by (auto simp: prefix_def)
  then show ?thesis by (simp add: newLines_def logLine_def)
qed

lemma newLines_within:
  assumes "grows a b" "grows b c" "grows c d"
  shows "set (newLines b c) \<subseteq> set (newLines a d)"
proof -
  have "set (newLines b c) \<subseteq> set (newLines a c)"
    using assms(1,2) by (intro newLines_mono(2)) (simp_all add: grows_def)
  also have "\<dots> \<subseteq> set (newLines a d)"
    using grows_trans [OF assms(1,2)] assms(3) by (intro newLines_mono(1)) (simp_all add: grows_def)
  finally show ?thesis .
qed

lemma newEffects_mono:
  assumes "prefix (effects w) (effects w1)" "prefix (effects w1) (effects w2)"
  shows "set (newEffects w w1) \<subseteq> set (newEffects w w2)"
    and "set (newEffects w1 w2) \<subseteq> set (newEffects w w2)"
proof -
  obtain a where a: "effects w1 = effects w @ a" using assms(1) by (auto simp: prefix_def)
  obtain b where b: "effects w2 = effects w1 @ b" using assms(2) by (auto simp: prefix_def)
  show "set (newEffects w w1) \<subseteq> set (newEffects w w2)"
    by (simp add: newEffects_def a b)
  show "set (newEffects w1 w2) \<subseteq> set (newEffects w w2)"
    by (simp add: newEffects_def a b)
qed

lemma newEffects_within:
  assumes "grows a b" "grows b c" "grows c d"
  shows "set (newEffects b c) \<subseteq> set (newEffects a d)"
proof -
  have "set (newEffects b c) \<subseteq> set (newEffects a c)"
    using assms(1,2) by (intro newEffects_mono(2)) (simp_all add: grows_def)
  also have "\<dots> \<subseteq> set (newEffects a d)"
    using grows_trans [OF assms(1,2)] assms(3) by (intro newEffects_mono(1)) (simp_all add: grows_def)
  finally show ?thesis .
qed

subsection \<open>One delivery\<close>

lemma String_of_StrId [simp]: "String_of (StrId k) = k"
  by (simp add: String_of_def)

lemma ensureUserState_registered:
  "map_of (users w) (String_of chatId) = Some st \<Longrightarrow> ensureUserState e chatId w = w"
  by (simp add: ensureUserState_def)

lemma map_of_ensureUserState:
  "map_of (users (ensureUserState e chatId w)) (String_of chatId) =
     Some (case map_of (users w) (String_of chatId) of
             None \<Rightarrow> \<lparr>currentLesson = 0, lastSentAt = None, joinedAt = now e (clock w)\<rparr>
           | Some st \<Rightarrow> st)"
  by (simp add: ensureUserState_def Let_def update_conv' split: option.splits)

lemma sendLessonToUser_completed:
  assumes "int (length (lessons cfg)) \<le> i"
  shows "sendLessonToUser cfg e chatId i w =
         andThen (perform e (SendMessage (normalizeChatId chatId) CourseCompleted)
                    (ensureUserState e chatId w))
           (\<lambda>w1. saveProgress e
                   (setCurrentLesson (String_of chatId) (int (length (lessons cfg))) w1))"
  using assms by (simp add: sendLessonToUser_def Let_def)

lemma sendLessonToUser_threw:
  assumes "i < int (length (lessons cfg))"
    and "sendLessonAssets cfg e chatId i (ensureUserState e chatId w) = (Threw err, w1)"
  shows "sendLessonToUser cfg e chatId i w =
         (Returned, logLine (DeliverFailed (i + 1) (String_of chatId) err) w1)"
  using assms by (simp add: sendLessonToUser_def Let_def)

lemma sendLessonToUser_returned:
  assumes "i < int (length (lessons cfg))"
    and "sendLessonAssets cfg e chatId i (ensureUserState e chatId w) = (Returned, w1)"
  shows "sendLessonToUser cfg e chatId i w =
         (case saveProgress e (recordDelivery cfg e (String_of chatId) i w1) of
            (Returned, w4) \<Rightarrow> (Returned, w4)
          | (Threw err, w4) \<Rightarrow>
              (Returned, logLine (DeliverFailed (i + 1) (String_of chatId) err) w4))"
  using assms by (simp add: sendLessonToUser_def Let_def recordDelivery_def setCurrentLesson_def)

lemma map_of_recordDelivery:
  assumes "map_of (users w1) key = Some st"
  shows "map_of (users (recordDelivery cfg e key i w1)) key =
         Some (st\<lparr>currentLesson := min (i + 1) (int (length (lessons cfg))),
                  lastSentAt := Some (now e (clock w1))\<rparr>)"
  using assms
  by (simp add: recordDelivery_def setLastSentAt_def setCurrentLesson_def map_of_map_entry)

lemma touchesOnly_recordDelivery: "touchesOnly key w (recordDelivery cfg e key i w)"
  unfolding recordDelivery_def
  by (rule touchesOnly_trans [OF touchesOnly_setCurrentLesson touchesOnly_setLastSentAt])

lemma sendLessonToUser_Returned:
  assumes "i < int (length (lessons cfg))"
  shows "fst (sendLessonToUser cfg e chatId i w) = Returned"
proof (cases "sendLessonAssets cfg e chatId i (ensureUserState e chatId w)")
  case (Pair c w1)
  show ?thesis
  proof (cases c)
    case Returned
    with Pair assms show ?thesis
      by (simp add: sendLessonToUser_returned split: prod.splits completion.splits)
  next
    case (Threw err)
    with Pair assms show ?thesis by (simp add: sendLessonToUser_threw)
  qed
qed

lemma touchesOnly_sendLessonToUser:
  "touchesOnly (String_of chatId) w (snd (sendLessonToUser cfg e chatId i w))"
proof -
  let ?k = "String_of chatId"
  let ?w0 = "ensureUserState e chatId w"
  have w0: "touchesOnly ?k w ?w0" by (rule touchesOnly_ensureUserState)
  show ?thesis
  proof (cases "i < int (length (lessons cfg))")
    case False
    have "touchesOnly ?k w (snd (andThen (perform e (SendMessage (normalizeChatId chatId) CourseCompleted) ?w0)
           (\<lambda>w1. saveProgress e (setCurrentLesson ?k (int (length (lessons cfg))) w1))))"
    proof (rule andThen_rel [where R = "touchesOnly ?k w"])
      show "touchesOnly ?k w (snd (perform e (SendMessage (normalizeChatId chatId) CourseCompleted) ?w0))"
        using w0 quiet_perform by (rule touchesOnly_quiet)
    next
      fix w1 assume "touchesOnly ?k w w1"
      then have "touchesOnly ?k w (setCurrentLesson ?k (int (length (lessons cfg))) w1)"
        using touchesOnly_setCurrentLesson by (rule touchesOnly_trans)
      then show "touchesOnly ?k w (snd (saveProgress e (setCurrentLesson ?k (int (length (lessons cfg))) w1)))"
        using quiet_saveProgress by (rule touchesOnly_quiet)
    qed
    with False show ?thesis by (simp add: sendLessonToUser_completed)
  next
    case True
    obtain c w1 where r: "sendLessonAssets cfg e chatId i ?w0 = (c, w1)" by force
    have "quiet ?w0 (snd (sendLessonAssets cfg e chatId i ?w0))" by (rule quiet_sendLessonAssets)
    with r w0 have w1: "touchesOnly ?k w w1" by (simp add: touchesOnly_quiet)
    show ?thesis
    proof (cases c)
      case (Threw err)
      have "touchesOnly ?k w (logLine (DeliverFailed (i + 1) ?k err) w1)"
        using w1 quiet_logLine by (rule touchesOnly_quiet)
      with Threw r True show ?thesis by (simp add: sendLessonToUser_threw)
    next
      case Returned
      let ?w3 = "recordDelivery cfg e ?k i w1"
      have "touchesOnly ?k w ?w3" using w1 touchesOnly_recordDelivery by (rule touchesOnly_trans)
      then have s: "touchesOnly ?k w (snd (saveProgress e ?w3))"
        using quiet_saveProgress by (rule touchesOnly_quiet)
      obtain c4 w4 where r4: "saveProgress e ?w3 = (c4, w4)" by force
      with s have w4: "touchesOnly ?k w w4" by simp
      have "\<And>err. touchesOnly ?k w (logLine (DeliverFailed (i + 1) ?k err) w4)"
        using w4 quiet_logLine by (rule touchesOnly_quiet)
      with w4 Returned r r4 True show ?thesis
        by (cases c4) (simp_all add: sendLessonToUser_returned)
    qed
  qed
qed

lemma sendLessonToUser_after_assets:
  assumes due: "i < int (length (lessons cfg))"
    and assets: "sendLessonAssets cfg e chatId i (ensureUserState e chatId w) = (Returned, w3)"
  shows "fst (sendLessonToUser cfg e chatId i w) = Returned"
    and "\<exists>st. map_of (users (ensureUserState e chatId w)) (String_of chatId) = Some st \<and>
          map_of (users (snd (sendLessonToUser cfg e chatId i w))) (String_of chatId) =
            Some (st\<lparr>currentLesson := i + 1, lastSentAt := Some (now e (clock w3))\<rparr>)"
    and "grows w3 (snd (sendLessonToUser cfg e chatId i w))"
proof -
  let ?k = "String_of chatId" and ?w0 = "ensureUserState e chatId w"
  let ?rec = "recordDelivery cfg e ?k i w3"
  show "fst (sendLessonToUser cfg e chatId i w) = Returned"
    using due by (rule sendLessonToUser_Returned)
  obtain st where st: "map_of (users ?w0) ?k = Some st"
    using map_of_ensureUserState [of e chatId w] by blast
  have "quiet ?w0 (snd (sendLessonAssets cfg e chatId i ?w0))" by (rule quiet_sendLessonAssets)
  then have q3: "quiet ?w0 w3" using assets by simp
  then have "map_of (users w3) ?k = Some st" using st by (simp add: quiet_def)
  then have m: "map_of (users ?rec) ?k =
      Some (st\<lparr>currentLesson := min (i + 1) (int (length (lessons cfg))),
               lastSentAt := Some (now e (clock w3))\<rparr>)"
    by (rule map_of_recordDelivery)
  obtain c4 w4 where r4: "saveProgress e ?rec = (c4, w4)" by force
  have "quiet ?rec (snd (saveProgress e ?rec))" by (rule quiet_saveProgress)
  with r4 have q4: "quiet ?rec w4" by simp
  have res: "snd (sendLessonToUser cfg e chatId i w) =
        (case c4 of Returned \<Rightarrow> w4 | Threw err \<Rightarrow> logLine (DeliverFailed (i + 1) ?k err) w4)"
    using due assets r4 by (cases c4) (simp_all add: sendLessonToUser_returned)
  have qf: "quiet w4 (snd (sendLessonToUser cfg e chatId i w))"
    unfolding res by (cases c4) (simp_all add: quiet_logLine)
  have "map_of (users (snd (sendLessonToUser cfg e chatId i w))) ?k =
      Some (st\<lparr>currentLesson := i + 1, lastSentAt := Some (now e (clock w3))\<rparr>)"
    using qf q4 m due by (simp add: quiet_def min_def)
  with st show "\<exists>st. map_of (users ?w0) ?k = Some st \<and>
          map_of (users (snd (sendLessonToUser cfg e chatId i w))) ?k =
            Some (st\<lparr>currentLesson := i + 1, lastSentAt := Some (now e (clock w3))\<rparr>)"
    by blast
  have "grows w3 ?rec" using touchesOnly_recordDelivery by (rule touchesOnly_grows)
  then have "grows w3 w4" using quiet_grows [OF q4] by (rule grows_trans)
  then show "grows w3 (snd (sendLessonToUser cfg e chatId i w))"
    using quiet_grows [OF qf] by (rule grows_trans)
qed

lemma sendLessonToUser_past_the_end:
  assumes "int (length (lessons cfg)) \<le> i"
    and "map_of (users w) (String_of chatId) = Some st"
    and "outcome e (clock w) (SendMessage (normalizeChatId chatId) CourseCompleted) = None"
  shows "map_of (users (snd (sendLessonToUser cfg e chatId i w))) (String_of chatId) =
         Some (st\<lparr>currentLesson := int (length (lessons cfg))\<rparr>)"
  using assms
  by (simp add: sendLessonToUser_completed ensureUserState_registered perform_ok
                users_saveProgress setCurrentLesson_def map_of_map_entry)

lemma catchAsset_logs:
  assumes "fst r = Threw err" "err \<noteq> ENOENT" "prefix (console w) (console (snd r))"
  shows "entry err \<in> set (newLines w (catchAsset entry r))"
proof -
  obtain w1 where r: "r = (Threw err, w1)" using assms(1) by (cases r) simp
  then have "catchAsset entry r = logLine (entry err) w1"
    using assms(2) by (simp add: catchAsset_def)
  then show ?thesis using assms(3) r by (simp add: newLines_logLine)
qed

lemma sendImage_logs:
  assumes "fst (tryImage e c n w) = Threw err" "err \<noteq> ENOENT"
  shows "ImageFailed n err \<in> set (newLines w (sendImage e c n w))"
  unfolding sendImage_def using assms
proof (rule catchAsset_logs)
  show "prefix (console w) (console (snd (tryImage e c n w)))"
    using quiet_tryImage [of w e c n] by (simp add: quiet_def)
qed

lemma sendAudioFile_logs:
  assumes "fst (tryAudio e c n w) = Threw err" "err \<noteq> ENOENT"
  shows "AudioFailed n err \<in> set (newLines w (sendAudioFile e c n w))"
  unfolding sendAudioFile_def using assms
proof (rule catchAsset_logs)
  show "prefix (console w) (console (snd (tryAudio e c n w)))"
    using quiet_tryAudio [of w e c n] by (simp add: quiet_def)
qed

lemma sendChunks_effects:
  "sendChunks e c cs w = (Returned, w') \<Longrightarrow>
   newEffects w w' = map (\<lambda>chunk. SendMessage c (LessonChunk chunk)) cs"
proof (induction cs arbitrary: w)
  case Nil
  then show ?case by (simp add: newEffects_def)
next
  case (Cons chunk rest)
  let ?a = "SendMessage c (LessonChunk chunk)"
  show ?case
  proof (cases "outcome e (clock w) ?a")
    case (Some err)
    then have "sendChunks e c (chunk # rest) w = (Threw err, w\<lparr>clock := Suc (clock w)\<rparr>)"
      by (simp add: perform_def)
    with Cons.prems show ?thesis by simp
  next
    case None
    let ?w1 = "w\<lparr>effects := effects w @ [?a], clock := Suc (clock w)\<rparr>"
    have "sendChunks e c (chunk # rest) w = sendChunks e c rest ?w1"
      using None by (simp add: perform_def)
    with Cons.prems have r: "sendChunks e c rest ?w1 = (Returned, w')" by simp
    then have ih: "newEffects ?w1 w' = map (\<lambda>chunk. SendMessage c (LessonChunk chunk)) rest"
      by (rule Cons.IH)
    have "quiet ?w1 (snd (sendChunks e c rest ?w1))" by (rule quiet_sendChunks)
    with r obtain b where b: "effects w' = (effects w @ [?a]) @ b"
      by (auto simp: quiet_def prefix_def)
    with ih show ?thesis by (simp add: newEffects_def)
  qed
qed

lemma attempted_later:
  assumes "attempted k s w1 w2" "prefix (console w) (console w1)" "prefix (console w1) (console w2)"
  shows "attempted k s w w2"
  using assms(1) newLines_mono(2) [OF assms(2,3)]
  by (auto simp: attempted_def list_ex_iff)

lemma attempted_sendLessonToUser:
  assumes reg: "map_of (users w) (String_of chatId) = Some st"
    and due: "currentLesson st < int (length (lessons cfg))"
  shows "attempted (String_of chatId) st w (snd (sendLessonToUser cfg e chatId (currentLesson st) w))"
proof -
  let ?k = "String_of chatId" and ?i = "currentLesson st"
  have w0: "ensureUserState e chatId w = w" using reg by (rule ensureUserState_registered)
  obtain c w1 where r: "sendLessonAssets cfg e chatId ?i w = (c, w1)" by force
  have "quiet w (snd (sendLessonAssets cfg e chatId ?i w))" by (rule quiet_sendLessonAssets)
  with r have q1: "quiet w w1" by simp
  show ?thesis
  proof (cases c)
    case (Threw err)
    have "DeliverFailed (?i + 1) ?k err \<in> set (newLines w (logLine (DeliverFailed (?i + 1) ?k err) w1))"
      using q1 by (intro newLines_logLine) (simp add: quiet_def)
    then have "list_ex (isDeliverFailed (?i + 1) ?k) (newLines w (logLine (DeliverFailed (?i + 1) ?k err) w1))"
      unfolding list_ex_iff by (rule bexI [rotated]) (simp add: isDeliverFailed_def)
    with Threw r due w0 show ?thesis by (simp add: sendLessonToUser_threw attempted_def)
  next
    case Returned
    let ?w3 = "recordDelivery cfg e ?k ?i w1"
    have u1: "map_of (users w1) ?k = Some st" using q1 reg by (simp add: quiet_def)
    have m3: "map_of (users ?w3) ?k =
        Some (st\<lparr>currentLesson := min (?i + 1) (int (length (lessons cfg))),
                 lastSentAt := Some (now e (clock w1))\<rparr>)"
      using u1 by (rule map_of_recordDelivery)
    have p3: "prefix (console w) (console ?w3)"
      using q1 touchesOnly_recordDelivery [of ?k w1 cfg e ?i] by (auto simp: quiet_def touchesOnly_def)
    obtain c4 w4 where r4: "saveProgress e ?w3 = (c4, w4)" by force
    have "quiet ?w3 (snd (saveProgress e ?w3))" by (rule quiet_saveProgress)
    with r4 have q4: "quiet ?w3 w4" by simp
    have m4: "map_of (users w4) ?k =
        Some (st\<lparr>currentLesson := min (?i + 1) (int (length (lessons cfg))),
                 lastSentAt := Some (now e (clock w1))\<rparr>)"
      using q4 m3 by (simp add: quiet_def)
    have res: "snd (sendLessonToUser cfg e chatId ?i w) =
          (case c4 of Returned \<Rightarrow> w4 | Threw err \<Rightarrow> logLine (DeliverFailed (?i + 1) ?k err) w4)"
      using Returned r r4 due w0 by (cases c4) (simp_all add: sendLessonToUser_returned)
    have "users (case c4 of Returned \<Rightarrow> w4 | Threw err \<Rightarrow> logLine (DeliverFailed (?i + 1) ?k err) w4) = users w4"
      by (cases c4) (simp_all add: logLine_def)
    with m4 due show ?thesis unfolding res attempted_def by (simp add: min_def)
  qed
qed

subsection \<open>One tick of the scheduler\<close>

lemma map_of_distinct_entry:
  assumes "distinct (map fst xs)" "(k, v) \<in> set xs"
  shows "map_of xs k = Some v"
  using assms by simp

lemma deliverLoop_Returned: "fst (deliverLoop cfg e keys w) = Returned"
proof (induction keys arbitrary: w)
  case Nil
  show ?case by simp
next
  case (Cons k keys)
  show ?case
  proof (cases "map_of (users w) k")
    case None
    then show ?thesis by (simp add: Cons.IH)
  next
    case (Some st)
    show ?thesis
    proof (cases "int (length (lessons cfg)) \<le> currentLesson st")
      case True
      with Some show ?thesis by (simp add: Cons.IH)
    next
      case False
      then have "fst (sendLessonToUser cfg e (StrId k) (currentLesson st) w) = Returned"
        by (intro sendLessonToUser_Returned) simp
      then obtain w1 where "sendLessonToUser cfg e (StrId k) (currentLesson st) w = (Returned, w1)"
        by (cases "sendLessonToUser cfg e (StrId k) (currentLesson st) w") simp
      with Some False show ?thesis by (simp add: Cons.IH)
    qed
  qed
qed

lemma deliverLoop_step:
  assumes "map_of (users w) k = Some st" "currentLesson st < int (length (lessons cfg))"
  shows "deliverLoop cfg e (k # keys) w =
         deliverLoop cfg e keys (snd (sendLessonToUser cfg e (StrId k) (currentLesson st) w))"
proof -
  have "fst (sendLessonToUser cfg e (StrId k) (currentLesson st) w) = Returned"
    using assms(2) by (rule sendLessonToUser_Returned)
  then obtain w1 where "sendLessonToUser cfg e (StrId k) (currentLesson st) w = (Returned, w1)"
    by (cases "sendLessonToUser cfg e (StrId k) (currentLesson st) w") simp
  with assms show ?thesis by simp
qed

lemma deliverLoop_skip:
  assumes "map_of (users w) k = None \<or>
           (\<exists>st. map_of (users w) k = Some st \<and> int (length (lessons cfg)) \<le> currentLesson st)"
  shows "deliverLoop cfg e (k # keys) w = deliverLoop cfg e keys w"
  using assms by auto

lemma deliverLoop_frame:
  "(\<forall>k. k \<notin> set keys \<longrightarrow> map_of (users (snd (deliverLoop cfg e keys w))) k = map_of (users w) k) \<and>
   prefix (console w) (console (snd (deliverLoop cfg e keys w)))"
proof (induction keys arbitrary: w)
  case Nil
  show ?case by simp
next
  case (Cons k keys)
  show ?case
  proof (cases "\<exists>st. map_of (users w) k = Some st \<and> currentLesson st < int (length (lessons cfg))")
    case False
    then have "deliverLoop cfg e (k # keys) w = deliverLoop cfg e keys w"
      by (intro deliverLoop_skip) (cases "map_of (users w) k"; auto)
    then show ?thesis using Cons.IH [of w] by simp
  next
    case True
    then obtain st where st: "map_of (users w) k = Some st" "currentLesson st < int (length (lessons cfg))"
      by blast
    let ?w1 = "snd (sendLessonToUser cfg e (StrId k) (currentLesson st) w)"
    have t: "touchesOnly k w ?w1"
      using touchesOnly_sendLessonToUser [of "StrId k" w cfg e "currentLesson st"] by simp
    show ?thesis
      unfolding deliverLoop_step [OF st]
      using Cons.IH [of ?w1] t by (auto simp: touchesOnly_def)
  qed
qed

lemma deliverLoop_attempts:
  assumes "distinct keys" "k \<in> set keys" "map_of (users w) k = Some s"
    and "currentLesson s < int (length (lessons cfg))"
  shows "attempted k s w (snd (deliverLoop cfg e keys w))"
  using assms
proof (induction keys arbitrary: w)
  case Nil
  then show ?case by simp
next
  case (Cons k0 keys)
  show ?case
  proof (cases "k0 = k")
    case True
    let ?w1 = "snd (sendLessonToUser cfg e (StrId k) (currentLesson s) w)"
    have a: "attempted k s w ?w1"
      using attempted_sendLessonToUser [of w "StrId k" s cfg e] Cons.prems(3,4) by simp
    have t: "touchesOnly k w ?w1"
      using touchesOnly_sendLessonToUser [of "StrId k" w cfg e "currentLesson s"] by simp
    have notin: "k \<notin> set keys" using Cons.prems(1) True by simp
    have f: "map_of (users (snd (deliverLoop cfg e keys ?w1))) k = map_of (users ?w1) k"
            "prefix (console ?w1) (console (snd (deliverLoop cfg e keys ?w1)))"
      using deliverLoop_frame [of keys cfg e ?w1] notin by blast+
    have p: "prefix (console w) (console ?w1)" using t by (simp add: touchesOnly_def)
    have "attempted k s w (snd (deliverLoop cfg e keys ?w1))"
      using a f newLines_mono(1) [OF p f(2)]
      by (auto simp: attempted_def list_ex_iff)
    then show ?thesis
      unfolding True deliverLoop_step [OF Cons.prems(3,4)] .
  next
    case False
    then have kin: "k \<in> set keys" and d: "distinct keys" using Cons.prems(1,2) by auto
    show ?thesis
    proof (cases "\<exists>st. map_of (users w) k0 = Some st \<and> currentLesson st < int (length (lessons cfg))")
      case False
      then have eq: "deliverLoop cfg e (k0 # keys) w = deliverLoop cfg e keys w"
        by (intro deliverLoop_skip) (cases "map_of (users w) k0"; auto)
      show ?thesis unfolding eq using d kin Cons.prems(3,4) by (rule Cons.IH)
    next
      case True
      then obtain st where st: "map_of (users w) k0 = Some st"
          "currentLesson st < int (length (lessons cfg))" by blast
      let ?w1 = "snd (sendLessonToUser cfg e (StrId k0) (currentLesson st) w)"
      have t: "touchesOnly k0 w ?w1"
        using touchesOnly_sendLessonToUser [of "StrId k0" w cfg e "currentLesson st"] by simp
      then have m: "map_of (users ?w1) k = Some s" and p: "prefix (console w) (console ?w1)"
        using \<open>k0 \<noteq> k\<close> Cons.prems(3) by (auto simp: touchesOnly_def)
      have ih: "attempted k s ?w1 (snd (deliverLoop cfg e keys ?w1))"
        using d kin m Cons.prems(4) by (rule Cons.IH)
      have p2: "prefix (console ?w1) (console (snd (deliverLoop cfg e keys ?w1)))"
        using deliverLoop_frame [of keys cfg e ?w1] by (rule conjunct2)
      have "attempted k s w (snd (deliverLoop cfg e keys ?w1))"
        using ih p p2 by (rule attempted_later)
      then show ?thesis unfolding deliverLoop_step [OF st] .
    qed
  qed
qed

lemma deliverLoop_append:
  "deliverLoop cfg e (xs @ ys) w = deliverLoop cfg e ys (snd (deliverLoop cfg e xs w))"
proof (induction xs arbitrary: w)
  case Nil
  show ?case by simp
next
  case (Cons k xs)
  show ?case
  proof (cases "\<exists>st. map_of (users w) k = Some st \<and> currentLesson st < int (length (lessons cfg))")
    case False
    then have s: "\<And>keys. deliverLoop cfg e (k # keys) w = deliverLoop cfg e keys w"
      by (intro deliverLoop_skip) (cases "map_of (users w) k"; auto)
    show ?thesis using s [of "xs @ ys"] s [of xs] Cons.IH by simp
  next
    case True
    then obtain st where st: "map_of (users w) k = Some st"
        "currentLesson st < int (length (lessons cfg))" by blast
    show ?thesis
      using deliverLoop_step [OF st, of e "xs @ ys"] deliverLoop_step [OF st, of e xs] Cons.IH
      by simp
  qed
qed

subsection \<open>The invariant of the store\<close>

lemma list_all_update:
  assumes "list_all P xs" "P (k, v)"
  shows "list_all P (AList.update k v xs)"
  using assms by (induction xs) auto

lemma list_all_map_entry:
  assumes "list_all P xs" "\<And>v. P (k, v) \<Longrightarrow> P (k, f v)"
  shows "list_all P (AList.map_entry k f xs)"
  using assms by (induction xs) auto

lemma storeInv_quiet: "storeInv cfg w \<Longrightarrow> quiet w w' \<Longrightarrow> storeInv cfg w'"
  by (simp add: storeInv_def quiet_def)

lemma storeInv_ensureUserState: "storeInv cfg w \<Longrightarrow> storeInv cfg (ensureUserState e chatId w)"
  by (auto simp: storeInv_def ensureUserState_def Let_def positionOk_def
           split: option.splits intro!: list_all_update)

lemma storeInv_setCurrentLesson:
  assumes "storeInv cfg w" "0 \<le> v" "v \<le> int (length (lessons cfg))"
  shows "storeInv cfg (setCurrentLesson k v w)"
  using assms
  by (auto simp: storeInv_def setCurrentLesson_def positionOk_def intro!: list_all_map_entry)

lemma storeInv_setLastSentAt: "storeInv cfg w \<Longrightarrow> storeInv cfg (setLastSentAt k ts w)"
  by (auto simp: storeInv_def setLastSentAt_def positionOk_def intro!: list_all_map_entry)

lemma storeInv_sendLessonToUser:
  assumes inv: "storeInv cfg w" and nonneg: "0 \<le> i"
  shows "storeInv cfg (snd (sendLessonToUser cfg e chatId i w))"
proof -
  let ?k = "String_of chatId" and ?w0 = "ensureUserState e chatId w"
  let ?n = "int (length (lessons cfg))"
  have inv0: "storeInv cfg ?w0" using inv by (rule storeInv_ensureUserState)
  show ?thesis
  proof (cases "i < ?n")
    case False
    have "storeInv cfg (snd (andThen (perform e (SendMessage (normalizeChatId chatId) CourseCompleted) ?w0)
           (\<lambda>w1. saveProgress e (setCurrentLesson ?k ?n w1))))"
    proof (rule andThen_rel [where R = "storeInv cfg"])
      show "storeInv cfg (snd (perform e (SendMessage (normalizeChatId chatId) CourseCompleted) ?w0))"
        using inv0 quiet_perform by (rule storeInv_quiet)
    next
      fix w1 assume "storeInv cfg w1"
      then have "storeInv cfg (setCurrentLesson ?k ?n w1)"
        by (rule storeInv_setCurrentLesson) simp_all
      then show "storeInv cfg (snd (saveProgress e (setCurrentLesson ?k ?n w1)))"
        using quiet_saveProgress by (rule storeInv_quiet)
    qed
    with False show ?thesis by (simp add: sendLessonToUser_completed)
  next
    case True
    obtain c w1 where r: "sendLessonAssets cfg e chatId i ?w0 = (c, w1)" by force
    have "quiet ?w0 (snd (sendLessonAssets cfg e chatId i ?w0))" by (rule quiet_sendLessonAssets)
    with r inv0 have inv1: "storeInv cfg w1" by (auto intro: storeInv_quiet)
    show ?thesis
    proof (cases c)
      case (Threw err)
      have "storeInv cfg (logLine (DeliverFailed (i + 1) ?k err) w1)"
        using inv1 quiet_logLine by (rule storeInv_quiet)
      with Threw r True show ?thesis by (simp add: sendLessonToUser_threw)
    next
      case Returned
      let ?w3 = "recordDelivery cfg e ?k i w1"
      have "storeInv cfg (setCurrentLesson ?k (min (i + 1) ?n) w1)"
        using inv1 nonneg by (intro storeInv_setCurrentLesson) simp_all
      then have inv3: "storeInv cfg ?w3"
        unfolding recordDelivery_def by (rule storeInv_setLastSentAt)
      obtain c4 w4 where r4: "saveProgress e ?w3 = (c4, w4)" by force
      have "quiet ?w3 (snd (saveProgress e ?w3))" by (rule quiet_saveProgress)
      with r4 inv3 have inv4: "storeInv cfg w4" by (auto intro: storeInv_quiet)
      have "\<And>err. storeInv cfg (logLine (DeliverFailed (i + 1) ?k err) w4)"
        using inv4 quiet_logLine by (rule storeInv_quiet)
      with inv4 Returned r r4 True show ?thesis
        by (cases c4) (simp_all add: sendLessonToUser_returned)
    qed
  qed
qed

lemma storeInv_lookup:
  assumes "storeInv cfg w" "map_of (users w) k = Some st"
  shows "0 \<le> currentLesson st"
proof -
  have "(k, st) \<in> set (users w)" using assms(2) by (rule map_of_SomeD)
  then show ?thesis using assms(1) by (auto simp: storeInv_def list_all_iff positionOk_def)
qed

lemma storeInv_deliverLoop:
  "storeInv cfg w \<Longrightarrow> storeInv cfg (snd (deliverLoop cfg e keys w))"
proof (induction keys arbitrary: w)
  case Nil
  then show ?case by simp
next
  case (Cons k keys)
  show ?case
  proof (cases "\<exists>st. map_of (users w) k = Some st \<and> currentLesson st < int (length (lessons cfg))")
    case False
    then have eq: "deliverLoop cfg e (k # keys) w = deliverLoop cfg e keys w"
      by (intro deliverLoop_skip) (cases "map_of (users w) k"; auto)
    show ?thesis unfolding eq using Cons.prems by (rule Cons.IH)
  next
    case True
    then obtain st where st: "map_of (users w) k = Some st"
        "currentLesson st < int (length (lessons cfg))" by blast
    have "0 \<le> currentLesson st" using Cons.prems st(1) by (rule storeInv_lookup)
    with Cons.prems have "storeInv cfg (snd (sendLessonToUser cfg e (StrId k) (currentLesson st) w))"
      by (rule storeInv_sendLessonToUser)
    then show ?thesis unfolding deliverLoop_step [OF st] by (rule Cons.IH)
  qed
qed

lemma storeInv_startCommand:
  assumes "storeInv cfg w"
  shows "storeInv cfg (snd (startCommand cfg e chat w))"
proof (cases "map_of (users w) (String_of (NumId chat))")
  case (Some st)
  have "quiet w (snd (andThen (perform e (SendMessage (NumId chat)
                        (WelcomeBack (min (currentLesson st) (int (length (lessons cfg))))
                                     (length (lessons cfg)))) w)
             (\<lambda>w1. perform e (SendMessage (NumId chat) HelpText) w1)))"
    by (intro quiet_andThen quiet_perform)
  with assms Some show ?thesis
    by (simp add: startCommand_def Let_def storeInv_quiet)
next
  case None
  let ?c = "NumId chat"
  have "storeInv cfg (snd (andThen (saveProgress e (ensureUserState e ?c w)) (\<lambda>w1.
             andThen (perform e (SendMessage ?c Welcome) w1) (\<lambda>w2.
             andThen (sendLessonToUser cfg e ?c 0 w2) (\<lambda>w3.
               perform e (SendMessage ?c HelpText) w3)))))"
  proof (intro andThen_rel [where R = "storeInv cfg"])
    show "storeInv cfg (snd (saveProgress e (ensureUserState e ?c w)))"
      using storeInv_ensureUserState [OF assms] quiet_saveProgress by (rule storeInv_quiet)
  next
    fix w1 assume "storeInv cfg w1"
    then show "storeInv cfg (snd (perform e (SendMessage ?c Welcome) w1))"
      using quiet_perform by (rule storeInv_quiet)
  next
    fix w1 w2 assume "storeInv cfg w2"
    then show "storeInv cfg (snd (sendLessonToUser cfg e ?c 0 w2))"
      by (rule storeInv_sendLessonToUser) simp
  next
    fix w1 w2 w3 assume "storeInv cfg w3"
    then show "storeInv cfg (snd (perform e (SendMessage ?c HelpText) w3))"
      using quiet_perform by (rule storeInv_quiet)
  qed
  with None show ?thesis by (simp add: startCommand_def Let_def)
qed

section \<open>The claims about delivery and progress\<close>

text \<open>
  Claim C1. In a tick over the subscribers \<open>before @ (S, st) # rest\<close> (distinct
  keys), let the send of one of the text chunks of \<open>S\<close>'s lesson fail with \<open>err\<close>,
  in the world \<open>w1\<close> that the subscribers before \<open>S\<close> have left. Then the tick
  completes; the record of \<open>S\<close> (position and \<open>lastSentAt\<close>) is what it was, so
  \<open>S\<close> is still due; the console has a new line \<open>Failed to deliver lesson\<close> with
  the lesson number (index plus one), the key \<open>S\<close> and \<open>err\<close>; and every due
  subscriber after \<open>S\<close> has had its turn.
\<close>

theorem scheduled_text_failure_is_isolated:
  assumes "distinct (map fst (users w))"
    and "users w = before @ (S, st) # rest"
    and "lessonAt cfg (currentLesson st) = Some body" and "body \<noteq> []"
    and "w1 = snd (deliverLoop cfg e (map fst before)
                    (logLine (Delivering (now e (clock w)) (length (users w))) w))"
    and "fst (sendChunks e (normalizeChatId (StrId S)) (formatChunks body)
               (sendImage e (normalizeChatId (StrId S)) (currentLesson st + 1) w1)) = Threw err"
  shows "fst (deliverDailyLessons cfg e w) = Returned \<and>
         map_of (users (snd (deliverDailyLessons cfg e w))) S = Some st \<and>
         currentLesson st < int (length (lessons cfg)) \<and>
         DeliverFailed (currentLesson st + 1) S err
           \<in> set (newLines w (snd (deliverDailyLessons cfg e w))) \<and>
         (\<forall>(k, s) \<in> set rest. currentLesson s < int (length (lessons cfg)) \<longrightarrow>
            attempted k s w (snd (deliverDailyLessons cfg e w)))"
proof -
  let ?w0 = "logLine (Delivering (now e (clock w)) (length (users w))) w"
  let ?i = "currentLesson st"
  let ?c = "normalizeChatId (StrId S)"
  let ?bk = "map fst before" and ?rk = "map fst rest"
  have keys: "map fst (users w) = ?bk @ S # ?rk" using assms(2) by simp
  have dist: "distinct (?bk @ S # ?rk)" using assms(1) keys by simp
  have due: "?i < int (length (lessons cfg))"
    using assms(3) by (simp add: lessonAt_def split: if_splits)
  have run: "deliverDailyLessons cfg e w = deliverLoop cfg e (?bk @ S # ?rk) ?w0"
    using assms(2) by (simp add: deliverDailyLessons_def Let_def)
  have q0: "quiet w ?w0" by (rule quiet_logLine)
  have f1: "\<forall>k. k \<notin> set ?bk \<longrightarrow> map_of (users w1) k = map_of (users ?w0) k"
    and p1: "prefix (console ?w0) (console w1)"
    using deliverLoop_frame [of ?bk cfg e ?w0] assms(5) by blast+
  have u0: "users ?w0 = users w" using q0 by (simp add: quiet_def)
  have pw1: "prefix (console w) (console w1)"
    using q0 p1 by (auto simp: quiet_def)
  have regS: "map_of (users w1) S = Some st"
  proof -
    have "S \<notin> set ?bk" using dist by simp
    then have "map_of (users w1) S = map_of (users w) S" using f1 u0 by simp
    also have "\<dots> = Some st" using assms(1,2) by (intro map_of_distinct_entry) simp_all
    finally show ?thesis .
  qed
  \<comment> \<open>the failing delivery\<close>
  let ?wi = "sendImage e ?c (?i + 1) w1"
  obtain w2 where ch: "sendChunks e ?c (formatChunks body) ?wi = (Threw err, w2)"
    using assms(6) by (cases "sendChunks e ?c (formatChunks body) ?wi") simp
  have q2: "quiet w1 w2"
  proof -
    have "quiet ?wi (snd (sendChunks e ?c (formatChunks body) ?wi))" by (rule quiet_sendChunks)
    with ch have "quiet ?wi w2" by simp
    with quiet_sendImage show ?thesis by (rule quiet_trans)
  qed
  have assets: "sendLessonAssets cfg e (StrId S) ?i w1 = (Threw err, w2)"
    using ch by (simp add: sendLessonAssets_available [OF assms(3,4)])
  let ?w3 = "logLine (DeliverFailed (?i + 1) S err) w2"
  have one: "sendLessonToUser cfg e (StrId S) ?i w1 = (Returned, ?w3)"
    using sendLessonToUser_threw [of ?i cfg e "StrId S" w1 err w2] due assets regS
    by (simp add: ensureUserState_registered)
  have q3: "quiet w1 ?w3" using q2 quiet_logLine by (rule quiet_trans)
  have reg3: "map_of (users ?w3) S = Some st" using q3 regS by (simp add: quiet_def)
  have pw2: "prefix (console w) (console w2)" using pw1 q2 by (auto simp: quiet_def)
  have logged3: "DeliverFailed (?i + 1) S err \<in> set (newLines w ?w3)"
    using pw2 by (rule newLines_logLine)
  have pw3: "prefix (console w) (console ?w3)" using pw1 q3 by (auto simp: quiet_def)
  \<comment> \<open>the rest of the batch\<close>
  let ?wf = "snd (deliverLoop cfg e ?rk ?w3)"
  have fin: "deliverDailyLessons cfg e w = deliverLoop cfg e ?rk ?w3"
  proof -
    have "deliverLoop cfg e (?bk @ S # ?rk) ?w0 = deliverLoop cfg e (S # ?rk) w1"
      unfolding assms(5) by (rule deliverLoop_append)
    also have "\<dots> = deliverLoop cfg e ?rk (snd (sendLessonToUser cfg e (StrId S) ?i w1))"
      using regS due by (rule deliverLoop_step)
    finally show ?thesis using run one by simp
  qed
  have ff: "\<forall>k. k \<notin> set ?rk \<longrightarrow> map_of (users ?wf) k = map_of (users ?w3) k"
    and pf: "prefix (console ?w3) (console ?wf)"
    using deliverLoop_frame [of ?rk cfg e ?w3] by blast+
  have c1: "fst (deliverDailyLessons cfg e w) = Returned"
    unfolding fin by (rule deliverLoop_Returned)
  have c2: "map_of (users ?wf) S = Some st"
  proof -
    have "S \<notin> set ?rk" using dist by simp
    then show ?thesis using ff reg3 by simp
  qed
  have c3: "DeliverFailed (?i + 1) S err \<in> set (newLines w ?wf)"
    using logged3 newLines_mono(1) [OF pw3 pf] by blast
  have c4: "\<forall>(k, s) \<in> set rest. currentLesson s < int (length (lessons cfg)) \<longrightarrow> attempted k s w ?wf"
  proof (intro ballI, clarify)
    fix k s assume ks: "(k, s) \<in> set rest" and d: "currentLesson s < int (length (lessons cfg))"
    have kin: "k \<in> set ?rk" using ks by force
    have "k \<notin> set ?bk" and "k \<noteq> S" using dist kin by auto
    then have "map_of (users w1) k = map_of (users w) k" using f1 u0 by simp
    also have "\<dots> = Some s" using assms(1,2) ks by (intro map_of_distinct_entry) simp_all
    finally have "map_of (users ?w3) k = Some s" using q3 by (simp add: quiet_def)
    moreover have "distinct ?rk" using dist by simp
    ultimately have "attempted k s ?w3 ?wf" using kin d by (intro deliverLoop_attempts)
    then show "attempted k s w ?wf" using pw3 pf by (rule attempted_later)
  qed
  show ?thesis using c1 c2 c3 c4 due unfolding fin by blast
qed

theorem scheduled_text_failure_witness:
  "fst (deliverDailyLessons oneLesson chat42Down threeSubscribers) = Returned \<and>
   map_of (users (snd (deliverDailyLessons oneLesson chat42Down threeSubscribers))) ''42'' = Some newcomer \<and>
   DeliverFailed 1 ''42'' TransportFailure
     \<in> set (newLines threeSubscribers (snd (deliverDailyLessons oneLesson chat42Down threeSubscribers))) \<and>
   attempted ''99'' newcomer threeSubscribers (snd (deliverDailyLessons oneLesson chat42Down threeSubscribers))"
proof -
  have h1: "distinct (map fst (users threeSubscribers))"
    by (simp add: threeSubscribers_def)
  have h2: "users threeSubscribers = [(''7'', newcomer)] @ (''42'', newcomer) # [(''99'', newcomer)]"
    by (simp add: threeSubscribers_def)
  have h3: "lessonAt oneLesson (currentLesson newcomer) = Some [72, 105]"
    by (simp add: lessonAt_def oneLesson_def newcomer_def)
  have h4: "[72, 105 :: unit16] \<noteq> []" by simp
  have h6: "fst (sendChunks chat42Down (normalizeChatId (StrId ''42'')) (formatChunks [72, 105])
               (sendImage chat42Down (normalizeChatId (StrId ''42'')) (currentLesson newcomer + 1)
                  (snd (deliverLoop oneLesson chat42Down (map fst [(''7'', newcomer)])
                    (logLine (Delivering (now chat42Down (clock threeSubscribers))
                                (length (users threeSubscribers))) threeSubscribers)))))
            = Threw TransportFailure"
    by code_simp
  have h5: "lessons oneLesson \<noteq> []" by (simp add: oneLesson_def)
  show ?thesis
    using scheduled_text_failure_is_isolated [OF h1 h2 h3 h4 refl h6]
    by (simp add: newcomer_def h5)
qed

text \<open>
  Claim C2, as amended. Let lesson \<open>i\<close> have a text, let all its chunks be sent, and
  let the message with the video link, when the lesson has a video, be sent as well.
  Then whatever happens to the image and to the audio, \<open>sendLessonToUser\<close> returns
  and the subscriber's position becomes \<open>i + 1\<close>, with \<open>lastSentAt\<close> set. An error
  of the image step or of the audio step (the file check or the upload) is caught; it
  is written to the console when its code is not \<open>ENOENT\<close>; and every chunk is among
  the calls that the delivery made.
\<close>

theorem asset_failures_do_not_block_progress:
  assumes "lessonAt cfg i = Some body" and "body \<noteq> []"
    and "w0 = ensureUserState e chatId w"
    and "c = normalizeChatId chatId"
    and "sendChunks e c (formatChunks body) (sendImage e c (i + 1) w0) = (Returned, w2)"
    and "sendVideoLink cfg e c i (sendAudioFile e c (i + 1) w2) = (Returned, w3)"
    and "wEnd = snd (sendLessonToUser cfg e chatId i w)"
  shows "fst (sendLessonToUser cfg e chatId i w) = Returned \<and>
         (\<exists>s'. map_of (users wEnd) (String_of chatId) = Some s' \<and>
               currentLesson s' = i + 1 \<and> lastSentAt s' = Some (now e (clock w3))) \<and>
         (\<forall>err. fst (tryImage e c (i + 1) w0) = Threw err \<and> err \<noteq> ENOENT \<longrightarrow>
               ImageFailed (i + 1) err \<in> set (newLines w wEnd)) \<and>
         (\<forall>err. fst (tryAudio e c (i + 1) w2) = Threw err \<and> err \<noteq> ENOENT \<longrightarrow>
               AudioFailed (i + 1) err \<in> set (newLines w wEnd)) \<and>
         (\<forall>chunk \<in> set (formatChunks body).
               SendMessage c (LessonChunk chunk) \<in> set (newEffects w wEnd))"
proof -
  let ?wi = "sendImage e c (i + 1) w0" and ?wa = "sendAudioFile e c (i + 1) w2"
  have due: "i < int (length (lessons cfg))"
    using assms(1) by (simp add: lessonAt_def split: if_splits)
  have assets: "sendLessonAssets cfg e chatId i (ensureUserState e chatId w) = (Returned, w3)"
    using assms(5,6) unfolding assms(3,4)
    by (simp add: sendLessonAssets_available [OF assms(1,2)])
  note after = sendLessonToUser_after_assets [OF due assets, folded assms(7)]
  have g0: "grows w w0"
    unfolding assms(3) using touchesOnly_ensureUserState by (rule touchesOnly_grows)
  have gi: "grows w0 ?wi" using quiet_sendImage by (rule quiet_grows)
  have g2: "grows ?wi w2"
    using quiet_sendChunks [of ?wi e c "formatChunks body"] assms(5) by (simp add: quiet_grows)
  have ga: "grows w2 ?wa" using quiet_sendAudioFile by (rule quiet_grows)
  have g3: "grows ?wa w3"
    using quiet_sendVideoLink [of ?wa cfg e c i] assms(6) by (simp add: quiet_grows)
  have gf: "grows w3 wEnd" by (rule after(3))
  have c2: "\<exists>s'. map_of (users wEnd) (String_of chatId) = Some s' \<and>
               currentLesson s' = i + 1 \<and> lastSentAt s' = Some (now e (clock w3))"
    using after(2) by auto
  have c3: "\<forall>err. fst (tryImage e c (i + 1) w0) = Threw err \<and> err \<noteq> ENOENT \<longrightarrow>
               ImageFailed (i + 1) err \<in> set (newLines w wEnd)"
  proof (intro allI impI, elim conjE)
    fix err assume "fst (tryImage e c (i + 1) w0) = Threw err" "err \<noteq> ENOENT"
    then have "ImageFailed (i + 1) err \<in> set (newLines w0 ?wi)" by (rule sendImage_logs)
    moreover have "grows ?wi wEnd"
      by (rule grows_trans [OF g2 grows_trans [OF ga grows_trans [OF g3 gf]]])
    ultimately show "ImageFailed (i + 1) err \<in> set (newLines w wEnd)"
      using newLines_within [OF g0 gi] by blast
  qed
  have c4: "\<forall>err. fst (tryAudio e c (i + 1) w2) = Threw err \<and> err \<noteq> ENOENT \<longrightarrow>
               AudioFailed (i + 1) err \<in> set (newLines w wEnd)"
  proof (intro allI impI, elim conjE)
    fix err assume "fst (tryAudio e c (i + 1) w2) = Threw err" "err \<noteq> ENOENT"
    then have "AudioFailed (i + 1) err \<in> set (newLines w2 ?wa)" by (rule sendAudioFile_logs)
    moreover have "grows w w2" by (rule grows_trans [OF g0 grows_trans [OF gi g2]])
    moreover have "grows ?wa wEnd" by (rule grows_trans [OF g3 gf])
    ultimately show "AudioFailed (i + 1) err \<in> set (newLines w wEnd)"
      using newLines_within [of w w2 ?wa wEnd] ga by blast
  qed
  have c5: "\<forall>chunk \<in> set (formatChunks body).
               SendMessage c (LessonChunk chunk) \<in> set (newEffects w wEnd)"
  proof
    fix chunk assume "chunk \<in> set (formatChunks body)"
    then have "SendMessage c (LessonChunk chunk) \<in> set (newEffects ?wi w2)"
      using sendChunks_effects [OF assms(5)] by simp
    moreover have "grows w ?wi" by (rule grows_trans [OF g0 gi])
    moreover have "grows w2 wEnd" by (rule grows_trans [OF ga grows_trans [OF g3 gf]])
    ultimately show "SendMessage c (LessonChunk chunk) \<in> set (newEffects w wEnd)"
      using newEffects_within [of w ?wi w2 wEnd] g2 by blast
  qed
  show ?thesis using after(1) c2 c3 c4 c5 by blast
qed

theorem asset_failures_witness:
  "fst (sendLessonToUser lessonWithVideo uploadsFail (StrId ''7'') 0 oneSubscriber) = Returned \<and>
   positionOf ''7'' (snd (sendLessonToUser lessonWithVideo uploadsFail (StrId ''7'') 0 oneSubscriber)) = Some 1 \<and>
   ImageFailed 1 TransportFailure
     \<in> set (newLines oneSubscriber
              (snd (sendLessonToUser lessonWithVideo uploadsFail (StrId ''7'') 0 oneSubscriber))) \<and>
   AudioFailed 1 TransportFailure
     \<in> set (newLines oneSubscriber
              (snd (sendLessonToUser lessonWithVideo uploadsFail (StrId ''7'') 0 oneSubscriber))) \<and>
   SendMessage (NumId 7) (LessonChunk [72, 105])
     \<in> set (newEffects oneSubscriber
              (snd (sendLessonToUser lessonWithVideo uploadsFail (StrId ''7'') 0 oneSubscriber)))"
proof -
  let ?e = uploadsFail and ?c = "normalizeChatId (StrId ''7'')"
  let ?w0 = "ensureUserState ?e (StrId ''7'') oneSubscriber"
  let ?sc = "sendChunks ?e ?c (formatChunks [72, 105]) (sendImage ?e ?c (0 + 1) ?w0)"
  let ?sv = "sendVideoLink lessonWithVideo ?e ?c 0 (sendAudioFile ?e ?c (0 + 1) (snd ?sc))"
  have h1: "lessonAt lessonWithVideo 0 = Some [72, 105]"
    by (simp add: lessonAt_def lessonWithVideo_def)
  have h2: "[72, 105 :: unit16] \<noteq> []" by simp
  have "fst ?sc = Returned" by code_simp
  then have h5: "?sc = (Returned, snd ?sc)" by (metis prod.collapse)
  have "fst ?sv = Returned" by code_simp
  then have h6: "?sv = (Returned, snd ?sv)" by (metis prod.collapse)
  have c: "?c = NumId 7" by code_simp
  have img: "fst (tryImage ?e ?c (0 + 1) ?w0) = Threw TransportFailure" by code_simp
  have aud: "fst (tryAudio ?e ?c (0 + 1) (snd ?sc)) = Threw TransportFailure" by code_simp
  have chunks: "formatChunks [72, 105] = [[72, 105]]" by code_simp
  show ?thesis
    using asset_failures_do_not_block_progress [OF h1 h2 refl refl h5 h6 refl] img aud
    unfolding chunks c positionOf_def
    by auto
qed

text \<open>
  Claim C2 as stated fails for the video: the image is missing (caught, nothing
  written to the console), the one text chunk is sent, the send of the video link fails;
  the position stays 0 and the console reports a failed delivery.
\<close>

theorem video_link_failure_counterexample:
  "fst (sendChunks videoLinkFails (NumId 7) (formatChunks [72, 105])
         (sendImage videoLinkFails (NumId 7) 1 oneSubscriber)) = Returned \<and>
   fst (tryImage videoLinkFails (NumId 7) 1 oneSubscriber) = Threw ENOENT \<and>
   positionOf ''7'' oneSubscriber = Some 0 \<and>
   positionOf ''7'' (snd (sendLessonToUser lessonWithVideo videoLinkFails (StrId ''7'') 0 oneSubscriber)) = Some 0 \<and>
   console (snd (sendLessonToUser lessonWithVideo videoLinkFails (StrId ''7'') 0 oneSubscriber)) =
     [DeliverFailed 1 ''7'' TransportFailure]"
  by code_simp

text \<open>
  Claim C3, as amended. After a delivery that succeeded (or, past the last lesson, after
  the completion message was sent) the position is \<open>min (i + 1) total\<close>, whatever it
  was before: there is no maximum with the current position. Called with the current
  position, as the scheduler does, it moves forward by one; called with an index more
  than one below the current position, it moves back.
\<close>

theorem advance_overwrites_position:
  assumes "map_of (users w) (String_of chatId) = Some st"
    and "(i < int (length (lessons cfg)) \<and> fst (sendLessonAssets cfg e chatId i w) = Returned) \<or>
         (int (length (lessons cfg)) \<le> i \<and>
          outcome e (clock w) (SendMessage (normalizeChatId chatId) CourseCompleted) = None)"
  shows "\<exists>s'. map_of (users (snd (sendLessonToUser cfg e chatId i w))) (String_of chatId) = Some s' \<and>
           currentLesson s' = min (i + 1) (int (length (lessons cfg))) \<and>
           (i = currentLesson st \<and> i < int (length (lessons cfg))
              \<longrightarrow> currentLesson s' = currentLesson st + 1) \<and>
           (i + 1 < currentLesson st \<longrightarrow> currentLesson s' < currentLesson st)"
  using assms(2)
proof (elim disjE conjE)
  assume due: "i < int (length (lessons cfg))"
    and "fst (sendLessonAssets cfg e chatId i w) = Returned"
  then obtain w3 where "sendLessonAssets cfg e chatId i w = (Returned, w3)"
    by (cases "sendLessonAssets cfg e chatId i w") simp
  then have "sendLessonAssets cfg e chatId i (ensureUserState e chatId w) = (Returned, w3)"
    using assms(1) by (simp add: ensureUserState_registered)
  from sendLessonToUser_after_assets(2) [OF due this] assms(1) due
  show ?thesis by (auto simp: ensureUserState_registered)
next
  assume "int (length (lessons cfg)) \<le> i"
    and "outcome e (clock w) (SendMessage (normalizeChatId chatId) CourseCompleted) = None"
  from sendLessonToUser_past_the_end [OF this(1) assms(1) this(2)] this(1)
  show ?thesis by auto
qed

theorem advance_overwrites_witness:
  "positionOf ''7'' (snd (sendLessonToUser sixLessons calm (StrId ''7'') 0 oneSubscriber)) = Some 1 \<and>
   positionOf ''7'' lateSubscriber = Some 5 \<and>
   positionOf ''7'' (snd (sendLessonToUser sixLessons calm (StrId ''7'') 0 lateSubscriber)) = Some 1 \<and>
   positionOf ''7'' (snd (sendLessonToUser sixLessons calm (StrId ''7'') 6 lateSubscriber)) = Some 6"
proof -
  have l1: "map_of (users lateSubscriber) (String_of (StrId ''7'')) =
      Some \<lparr>currentLesson = 5, lastSentAt = Some ''2025-01-02T06:00:00.000Z'',
             joinedAt = ''2025-01-01T00:00:00.000Z''\<rparr>"
    by (simp add: lateSubscriber_def)
  have "fst (sendLessonAssets sixLessons calm (StrId ''7'') 0 lateSubscriber) = Returned"
    by code_simp
  then have l2: "(0 < int (length (lessons sixLessons)) \<and>
        fst (sendLessonAssets sixLessons calm (StrId ''7'') 0 lateSubscriber) = Returned) \<or>
       (int (length (lessons sixLessons)) \<le> 0 \<and>
        outcome calm (clock lateSubscriber)
          (SendMessage (normalizeChatId (StrId ''7'')) CourseCompleted) = None)"
    by (simp add: sixLessons_def)
  have l3: "(6 < int (length (lessons sixLessons)) \<and>
        fst (sendLessonAssets sixLessons calm (StrId ''7'') 6 lateSubscriber) = Returned) \<or>
       (int (length (lessons sixLessons)) \<le> 6 \<and>
        outcome calm (clock lateSubscriber)
          (SendMessage (normalizeChatId (StrId ''7'')) CourseCompleted) = None)"
    by (simp add: sixLessons_def calm_def)
  have h1: "map_of (users oneSubscriber) (String_of (StrId ''7'')) = Some newcomer"
    by (simp add: oneSubscriber_def)
  have "fst (sendLessonAssets sixLessons calm (StrId ''7'') 0 oneSubscriber) = Returned"
    by code_simp
  then have h2: "(0 < int (length (lessons sixLessons)) \<and>
        fst (sendLessonAssets sixLessons calm (StrId ''7'') 0 oneSubscriber) = Returned) \<or>
       (int (length (lessons sixLessons)) \<le> 0 \<and>
        outcome calm (clock oneSubscriber)
          (SendMessage (normalizeChatId (StrId ''7'')) CourseCompleted) = None)"
    by (simp add: sixLessons_def)
  have n: "int (length (lessons sixLessons)) = 6" by (simp add: sixLessons_def)
  show ?thesis
    using advance_overwrites_position [OF h1 h2] advance_overwrites_position [OF l1 l2]
          advance_overwrites_position [OF l1 l3] l1
    by (auto simp: positionOf_def n)
qed

text \<open>
  Claim C3 as stated fails: delivering lesson index 4 and then lesson index 0 to the
  same subscriber takes the position from 5 back to 1.
\<close>

theorem advance_out_of_order_counterexample:
  "positionOf ''7'' (snd (sendLessonToUser sixLessons calm (StrId ''7'') 4 oneSubscriber)) = Some 5 \<and>
   positionOf ''7'' (snd (sendLessonToUser sixLessons calm (StrId ''7'') 0
                      (snd (sendLessonToUser sixLessons calm (StrId ''7'') 4 oneSubscriber)))) = Some 1"
  by code_simp

text \<open>
  Claim C4, as amended. When there is no lesson text at index \<open>i\<close> (no entry, or an
  empty string), \<open>sendLessonAssets\<close> does nothing but send the unavailability notice
  and never touches the store, so an on-demand resend leaves the record as it is. Under
  \<open>sendLessonToUser\<close>, for an index below the number of lessons and a registered
  subscriber: when the notice is sent, the position becomes \<open>i + 1\<close> and
  \<open>lastSentAt\<close> is set, as after a delivery; when the notice fails, the store is
  unchanged and the failure is written to the console.
\<close>

theorem unavailable_lesson_handling:
  assumes "lessonAt cfg i = None \<or> lessonAt cfg i = Some []"
    and "notice = SendMessage (normalizeChatId chatId) (LessonUnavailable (i + 1))"
  shows "sendLessonAssets cfg e chatId i w = perform e notice w \<and>
         users (snd (sendLessonAssets cfg e chatId i w)) = users w \<and>
         (i < int (length (lessons cfg)) \<and> map_of (users w) (String_of chatId) = Some st \<longrightarrow>
            (outcome e (clock w) notice = None \<longrightarrow>
               map_of (users (snd (sendLessonToUser cfg e chatId i w))) (String_of chatId) =
                 Some (st\<lparr>currentLesson := i + 1,
                          lastSentAt := Some (now e (Suc (clock w)))\<rparr>)) \<and>
            (\<forall>err. outcome e (clock w) notice = Some err \<longrightarrow>
               users (snd (sendLessonToUser cfg e chatId i w)) = users w \<and>
               console (snd (sendLessonToUser cfg e chatId i w)) =
                 console w @ [DeliverFailed (i + 1) (String_of chatId) err]))"
proof (intro conjI impI allI)
  show eq: "sendLessonAssets cfg e chatId i w = perform e notice w"
    unfolding assms(2) using assms(1) by (rule sendLessonAssets_unavailable)
  show "users (snd (sendLessonAssets cfg e chatId i w)) = users w"
    using quiet_sendLessonAssets [of w cfg e chatId i] by (simp add: quiet_def)
next
  assume a: "i < int (length (lessons cfg)) \<and> map_of (users w) (String_of chatId) = Some st"
    and ok: "outcome e (clock w) notice = None"
  let ?w3 = "w\<lparr>effects := effects w @ [notice], clock := Suc (clock w)\<rparr>"
  have "sendLessonAssets cfg e chatId i (ensureUserState e chatId w) = (Returned, ?w3)"
    using a ok sendLessonAssets_unavailable [OF assms(1), of e chatId w]
    by (simp add: ensureUserState_registered perform_ok assms(2))
  from sendLessonToUser_after_assets(2) [OF conjunct1 [OF a] this] a
  show "map_of (users (snd (sendLessonToUser cfg e chatId i w))) (String_of chatId) =
          Some (st\<lparr>currentLesson := i + 1, lastSentAt := Some (now e (Suc (clock w)))\<rparr>)"
    by (simp add: ensureUserState_registered)
next
  fix err
  assume a: "i < int (length (lessons cfg)) \<and> map_of (users w) (String_of chatId) = Some st"
    and bad: "outcome e (clock w) notice = Some err"
  have "sendLessonAssets cfg e chatId i (ensureUserState e chatId w) =
          (Threw err, w\<lparr>clock := Suc (clock w)\<rparr>)"
    using a bad sendLessonAssets_unavailable [OF assms(1), of e chatId w]
    by (simp add: ensureUserState_registered perform_fails assms(2))
  from sendLessonToUser_threw [OF conjunct1 [OF a] this]
  show "users (snd (sendLessonToUser cfg e chatId i w)) = users w"
    and "console (snd (sendLessonToUser cfg e chatId i w)) =
           console w @ [DeliverFailed (i + 1) (String_of chatId) err]"
    by (simp_all add: logLine_def)
qed

theorem unavailable_lesson_witness:
  "positionOf ''7'' (snd (sendLessonToUser emptyFirstLesson calm (StrId ''7'') 0 oneSubscriber)) = Some 1 \<and>
   users (snd (sendLessonToUser emptyFirstLesson chat42Down (StrId ''42'') 0 threeSubscribers))
     = users threeSubscribers"
proof -
  have h: "lessonAt emptyFirstLesson 0 = None \<or> lessonAt emptyFirstLesson 0 = Some []"
    by (simp add: lessonAt_def emptyFirstLesson_def)
  have n: "0 < int (length (lessons emptyFirstLesson))" by (simp add: emptyFirstLesson_def)
  have r7: "map_of (users oneSubscriber) (String_of (StrId ''7'')) = Some newcomer"
    by (simp add: oneSubscriber_def)
  have ok: "outcome calm (clock oneSubscriber)
              (SendMessage (normalizeChatId (StrId ''7'')) (LessonUnavailable (0 + 1))) = None"
    by (simp add: calm_def)
  have r42: "map_of (users threeSubscribers) (String_of (StrId ''42'')) = Some newcomer"
    by (simp add: threeSubscribers_def)
  have bad: "outcome chat42Down (clock threeSubscribers)
              (SendMessage (normalizeChatId (StrId ''42'')) (LessonUnavailable (0 + 1)))
             = Some TransportFailure"
    by code_simp
  show ?thesis
    using unavailable_lesson_handling [OF h refl, of calm "StrId ''7''" oneSubscriber newcomer]
          unavailable_lesson_handling [OF h refl, of chat42Down "StrId ''42''" threeSubscribers newcomer]
          n r7 ok r42 bad
    by (simp add: positionOf_def)
qed

text \<open>
  Claim C4 as stated fails: with an empty first lesson, the scheduled delivery of index
  0 sends the unavailability notice and then moves the subscriber from position 0 to 1
  and sets \<open>lastSentAt\<close>.
\<close>

theorem unavailable_lesson_counterexample:
  "lessonAt emptyFirstLesson 0 = Some [] \<and>
   map_of (users oneSubscriber) ''7'' =
     Some \<lparr>currentLesson = 0, lastSentAt = None, joinedAt = ''2025-01-01T00:00:00.000Z''\<rparr> \<and>
   SendMessage (NumId 7) (LessonUnavailable 1)
     \<in> set (effects (snd (sendLessonToUser emptyFirstLesson calm (StrId ''7'') 0 oneSubscriber))) \<and>
   map_of (users (snd (sendLessonToUser emptyFirstLesson calm (StrId ''7'') 0 oneSubscriber))) ''7'' =
     Some \<lparr>currentLesson = 1, lastSentAt = Some ''2025-01-02T06:00:00.000Z'',
            joinedAt = ''2025-01-01T00:00:00.000Z''\<rparr>"
  by code_simp

text \<open>
  Claim C8. The handler of \<open>/lesson n\<close> never changes the store, whatever \<open>n\<close> is
  and whatever fails; and for \<open>1 \<le> n \<le> total\<close>, once its announcement is sent, it
  is exactly \<open>sendLessonAssets\<close> for index \<open>n - 1\<close>, without any progress update.
\<close>

theorem resend_leaves_store_untouched:
  "users (snd (lessonCommand cfg e chat n w)) = users w \<and>
   (1 \<le> n \<and> n \<le> length (lessons cfg) \<and>
    outcome e (clock w) (SendMessage (NumId chat) (LessonRequested n)) = None \<longrightarrow>
      lessonCommand cfg e chat n w =
        sendLessonAssets cfg e (NumId chat) (int n - 1)
          (snd (perform e (SendMessage (NumId chat) (LessonRequested n)) w)))"
proof
  have "quiet w (snd (lessonCommand cfg e chat n w))"
    unfolding lessonCommand_def Let_def
    by (auto intro: quiet_perform quiet_andThen quiet_sendLessonAssets)
  then show "users (snd (lessonCommand cfg e chat n w)) = users w" by (simp add: quiet_def)
  show "1 \<le> n \<and> n \<le> length (lessons cfg) \<and>
    outcome e (clock w) (SendMessage (NumId chat) (LessonRequested n)) = None \<longrightarrow>
      lessonCommand cfg e chat n w =
        sendLessonAssets cfg e (NumId chat) (int n - 1)
          (snd (perform e (SendMessage (NumId chat) (LessonRequested n)) w))"
    by (auto simp: lessonCommand_def Let_def perform_ok)
qed

theorem resend_witness:
  "users (snd (lessonCommand sixLessons calm 7 1 oneSubscriber)) = users oneSubscriber \<and>
   lessonCommand sixLessons calm 7 1 oneSubscriber =
     sendLessonAssets sixLessons calm (NumId 7) (int 1 - 1)
       (snd (perform calm (SendMessage (NumId 7) (LessonRequested 1)) oneSubscriber))"
proof -
  have "(1::nat) \<le> 1 \<and> 1 \<le> length (lessons sixLessons) \<and>
        outcome calm (clock oneSubscriber) (SendMessage (NumId 7) (LessonRequested 1)) = None"
    by (simp add: sixLessons_def calm_def)
  then show ?thesis
    using resend_leaves_store_untouched [of sixLessons calm 7 1 oneSubscriber] by blast
qed

text \<open>
  Claim C9. Every operation that writes to the store keeps every position between 0
  and the number of lessons: \<open>ensureUserState\<close>; \<open>sendLessonToUser\<close> for an index
  that is not negative (its callers pass 0 or the current position), which covers
  delivery and completion; the \<open>/start\<close> and \<open>/lesson\<close> handlers; and a tick of
  the scheduler.
\<close>

theorem position_invariant_preserved:
  assumes "storeInv cfg w"
  shows "storeInv cfg (ensureUserState e chatId w) \<and>
         (0 \<le> i \<longrightarrow> storeInv cfg (snd (sendLessonToUser cfg e chatId i w))) \<and>
         storeInv cfg (snd (startCommand cfg e chat w)) \<and>
         storeInv cfg (snd (lessonCommand cfg e chat n w)) \<and>
         storeInv cfg (snd (deliverDailyLessons cfg e w))"
proof (intro conjI impI)
  show "storeInv cfg (ensureUserState e chatId w)"
    using assms by (rule storeInv_ensureUserState)
  show "storeInv cfg (snd (startCommand cfg e chat w))"
    using assms by (rule storeInv_startCommand)
  have "quiet w (snd (lessonCommand cfg e chat n w))"
    unfolding lessonCommand_def Let_def
    by (auto intro: quiet_perform quiet_andThen quiet_sendLessonAssets)
  with assms show "storeInv cfg (snd (lessonCommand cfg e chat n w))"
    by (rule storeInv_quiet)
  have "storeInv cfg (logLine (Delivering (now e (clock w)) (length (users w))) w)"
    using assms quiet_logLine by (rule storeInv_quiet)
  then have "storeInv cfg (snd (deliverLoop cfg e (map fst (users w))
                (logLine (Delivering (now e (clock w)) (length (users w))) w)))"
    by (rule storeInv_deliverLoop)
  with assms show "storeInv cfg (snd (deliverDailyLessons cfg e w))"
    by (simp add: deliverDailyLessons_def Let_def)
next
  assume "0 \<le> i"
  with assms show "storeInv cfg (snd (sendLessonToUser cfg e chatId i w))"
    by (rule storeInv_sendLessonToUser)
qed

theorem position_invariant_witness:
  "storeInv sixLessons threeSubscribers \<and>
   storeInv sixLessons (ensureUserState calm (NumId 8) threeSubscribers) \<and>
   storeInv sixLessons (snd (sendLessonToUser sixLessons chat42Down (StrId ''7'') 6 threeSubscribers)) \<and>
   storeInv sixLessons (snd (startCommand sixLessons calm 8 threeSubscribers)) \<and>
   storeInv sixLessons (snd (lessonCommand sixLessons calm 8 2 threeSubscribers)) \<and>
   storeInv sixLessons (snd (deliverDailyLessons sixLessons chat42Down threeSubscribers))"
proof -
  have h: "storeInv sixLessons threeSubscribers"
    by (simp add: storeInv_def threeSubscribers_def positionOk_def newcomer_def)
  show ?thesis
    using h
      position_invariant_preserved
        [OF h, where e = calm and chatId = "NumId 8" and i = 6 and chat = 8 and n = 2]
      position_invariant_preserved
        [OF h, where e = chat42Down and chatId = "StrId ''7''" and i = 6 and chat = 7 and n = 2]
    by simp
qed

end
